theory Spec2Isabelle
  imports Complex_Main
begin

section \<open>Forward-mode derivatives by two reverse-mode passes\<close>

text \<open>
  A shallow embedding of \<^verbatim>\<open>tensorflow/contrib/nn/python/ops/fwd_gradients.py\<close>.
  The function \<^verbatim>\<open>fwd_gradients\<close> is embedded statement by statement. The framework
  operations it calls (\<^verbatim>\<open>gradients\<close>, \<^verbatim>\<open>zeros_like\<close>, \<^verbatim>\<open>convert_to_tensor\<close>,
  \<^verbatim>\<open>control_dependencies\<close>, \<^verbatim>\<open>Assert\<close>, \<^verbatim>\<open>identity_n\<close>, \<^verbatim>\<open>set_shape\<close>) live
  in other modules; they are modelled from the specification's description of the
  collaborators and each such definition says so.
\<close>

subsection \<open>Graph nodes\<close>

text \<open>
  A floating-point element is either the not-a-number sentinel or a number. Arithmetic on
  numbers is exact: rounding is not modelled.
\<close>

datatype fval = NaN | Num real

type_synonym shape = "nat list"

text \<open>
  A tensor is a handle on a node of the computation graph, written as the expression that
  builds it. Placeholders and \<^verbatim>\<open>zeros_like\<close> nodes carry the unique operation name the
  graph gave them; two handles denote the same node exactly when they are equal.
  \<open>IdentityN c deps t\<close> is an output of \<^verbatim>\<open>identity_n\<close> built under a control dependency
  on \<^verbatim>\<open>Assert(c, ...)\<close>, the assertion itself having the control inputs \<open>deps\<close>.
\<close>

datatype tensor =
    Placeholder nat shape
  | Const fval shape
  | ZerosLike nat tensor
  | AddScalar tensor fval
  | Add tensor tensor
  | Mul tensor tensor
  | Gather tensor "nat list"
  | UnsortedSegmentSum tensor "nat list" nat
  | IdentityN bool "tensor list" tensor

text \<open>
  What a reverse-mode pass hands back for one target, when the target is reached: a dense
  tensor, or \<^verbatim>\<open>IndexedSlices(values, indices, dense_shape)\<close>. Python's \<^verbatim>\<open>None\<close> is the
  \<open>None\<close> of \<open>grad option\<close>.
\<close>

datatype grad = Dense tensor | IndexedSlices tensor "nat list" shape

datatype error = TypeError | ValueError | AttributeError | AssertionFailed | OutOfRange

text \<open>The supply of operation names of the ambient graph: \<open>op_count\<close> is the first name
  not handed out yet. Only the nodes that the model tells apart by name, the placeholders
  and the zero fills, draw from it, so it does not count the operations of the graph; the
  nodes that a call registers are followed by the store of the graph further below.\<close>

record graph =
  op_count :: nat

fun shape_of :: "tensor \<Rightarrow> shape" where
  "shape_of (Placeholder n s) = s"
| "shape_of (Const v s) = s"
| "shape_of (ZerosLike n t) = shape_of t"
| "shape_of (AddScalar t c) = shape_of t"
| "shape_of (Add a b) = shape_of a"
| "shape_of (Mul a b) = shape_of a"
| "shape_of (Gather p idx) = length idx # tl (shape_of p)"
| "shape_of (UnsortedSegmentSum v idx n) = n # tl (shape_of v)"
| "shape_of (IdentityN c deps t) = shape_of t"

subsection \<open>The framework operations\<close>

text \<open>Modelled from the spec: \<^verbatim>\<open>array_ops.zeros_like\<close> (zero-filling of a node handle,
  section 6). The new node is registered under the fresh name \<open>n\<close>.\<close>

definition zeros_like :: "nat \<Rightarrow> tensor \<Rightarrow> tensor" where
  "zeros_like n t = ZerosLike n t"

text \<open>Modelled from the spec: \<^verbatim>\<open>ops.convert_to_tensor\<close> on an indexed representation
  (``must be convertible to a dense node representation'', section 6): the slices are summed
  into the rows their indices name.\<close>

fun convert_to_tensor :: "grad \<Rightarrow> tensor" where
  "convert_to_tensor (Dense t) = t"
| "convert_to_tensor (IndexedSlices v idx s) = UnsortedSegmentSum v idx (hd s)"

text \<open>Modelled from the spec: the aggregation of the contributions that reach one target
  along several paths (``the weighted sum of partial derivatives'', glossary). An absent
  contribution adds nothing.\<close>

fun add_grads :: "grad option \<Rightarrow> grad option \<Rightarrow> grad option" where
  "add_grads None g = g"
| "add_grads (Some a) None = Some a"
| "add_grads (Some a) (Some b) = Some (Dense (Add (convert_to_tensor a) (convert_to_tensor b)))"

text \<open>Modelled from the spec: the reverse-mode differentiation primitive for one output
  \<open>y\<close>, one target \<open>x\<close> and the output's seed \<open>s\<close> (section 6 and glossary): the seed-weighted
  partial derivative of \<open>y\<close> with respect to \<open>x\<close>, \<open>None\<close> when \<open>y\<close> does not depend on \<open>x\<close>,
  and an indexed representation when \<open>x\<close> is read through a gather. Zero-filling and
  constants pass no derivative back.\<close>

fun backprop :: "tensor \<Rightarrow> tensor \<Rightarrow> tensor \<Rightarrow> grad option" where
  "backprop (Placeholder n sh) x s = (if Placeholder n sh = x then Some (Dense s) else None)"
| "backprop (Const v sh) x s = (if Const v sh = x then Some (Dense s) else None)"
| "backprop (ZerosLike n t) x s = (if ZerosLike n t = x then Some (Dense s) else None)"
| "backprop (AddScalar t c) x s =
     (if AddScalar t c = x then Some (Dense s) else backprop t x s)"
| "backprop (Add a b) x s =
     (if Add a b = x then Some (Dense s)
      else add_grads (backprop a x s) (backprop b x s))"
| "backprop (Mul a b) x s =
     (if Mul a b = x then Some (Dense s)
      else add_grads (backprop a x (Mul s b)) (backprop b x (Mul s a)))"
| "backprop (Gather p idx) x s =
     (if Gather p idx = x then Some (Dense s)
      else if p = x then Some (IndexedSlices s idx (shape_of p))
      else backprop p x (UnsortedSegmentSum s idx (hd (shape_of p))))"
| "backprop (UnsortedSegmentSum v idx n) x s =
     (if UnsortedSegmentSum v idx n = x then Some (Dense s)
      else backprop v x (Gather s idx))"
| "backprop (IdentityN c deps t) x s =
     (if IdentityN c deps t = x then Some (Dense s) else backprop t x s)"

text \<open>Modelled from the spec: the seed that \<^verbatim>\<open>gradients\<close> takes when \<^verbatim>\<open>grad_ys\<close> is
  left out (``the default all-ones seed'', algorithm step 7): ones of each output's shape.\<close>

definition default_grad_ys :: "tensor list \<Rightarrow> tensor list" where
  "default_grad_ys ys = map (\<lambda>y. Const (Num 1) (shape_of y)) ys"

text \<open>Modelled from the spec: \<^verbatim>\<open>gradients(ys, xs, grad_ys)\<close>,
  ``reverse\_grad(outputs, targets, seed) -> sequence\_of\_node\_or\_null, matching targets in
  length'' (section 6). Each target gets the sum over the outputs of their seed-weighted
  derivatives; a seed list of the wrong length is refused.\<close>

definition gradients ::
  "tensor list \<Rightarrow> tensor list \<Rightarrow> tensor list option \<Rightarrow> error + grad option list" where
  "gradients ys xs grad_ys =
     (let seeds = (case grad_ys of None \<Rightarrow> default_grad_ys ys | Some gs \<Rightarrow> gs) in
      if length seeds \<noteq> length ys then Inl ValueError
      else Inr (map (\<lambda>x. foldl add_grads None (map2 (\<lambda>y s. backprop y x s) ys seeds)) xs))"

text \<open>Modelled from the spec: \<^verbatim>\<open>t + float('nan')\<close>, the sentinel fill of a dual
  placeholder (algorithm step 1). Only floating-point tensors are modelled.\<close>

definition add_scalar :: "tensor \<Rightarrow> fval \<Rightarrow> tensor" where
  "add_scalar t c = AddScalar t c"

text \<open>Modelled from the spec: \<^verbatim>\<open>ops.control_dependencies(values)\<close> (section 6: ``to
  force another node's evaluation to be ordered after it''). The control inputs must be
  graph elements: \<^verbatim>\<open>None\<close> is none and is refused; of an indexed representation the
  operation producing its values is taken.\<close>

fun control_input :: "grad option \<Rightarrow> error + tensor" where
  "control_input None = Inl TypeError"
| "control_input (Some (Dense t)) = Inr t"
| "control_input (Some (IndexedSlices v idx s)) = Inr v"

text \<open>Modelled from the spec: the control inputs of a whole list, taken in order; the
  first refusal ends it.\<close>

fun control_dependencies :: "grad option list \<Rightarrow> error + tensor list" where
  "control_dependencies [] = Inr []"
| "control_dependencies (d # ds) =
     (case control_input d of Inl e \<Rightarrow> Inl e
      | Inr t \<Rightarrow> (case control_dependencies ds of Inl e \<Rightarrow> Inl e
                  | Inr ts \<Rightarrow> Inr (t # ts)))"

text \<open>Modelled from the spec: \<^verbatim>\<open>array_ops.identity_n(values)\<close> under the control
  dependency on \<^verbatim>\<open>Assert(cond, [1])\<close> whose own control inputs are \<open>deps\<close> (``identity
  pass-through'', section 6). Every input must be convertible to a tensor: \<^verbatim>\<open>None\<close> is
  refused.\<close>

fun identity_n :: "bool \<Rightarrow> tensor list \<Rightarrow> grad option list \<Rightarrow> error + grad option list" where
  "identity_n cond deps [] = Inr []"
| "identity_n cond deps (None # ds) = Inl TypeError"
| "identity_n cond deps (Some d # ds) =
     (case identity_n cond deps ds of Inl e \<Rightarrow> Inl e
      | Inr rs \<Rightarrow> Inr (Some (Dense (IdentityN cond deps (convert_to_tensor d))) # rs))"

text \<open>Modelled from the spec: \<^verbatim>\<open>dydx.set_shape(x.shape)\<close> (``shape assignment'',
  section 6). Only a tensor has the method; a shape that contradicts the node's own is
  refused (``shapes statically inconsistent'', section 4.1); otherwise the handle is the
  same node.\<close>

fun set_shape :: "grad option \<Rightarrow> shape \<Rightarrow> error + tensor" where
  "set_shape None sh = Inl AttributeError"
| "set_shape (Some (IndexedSlices v idx s)) sh = Inl AttributeError"
| "set_shape (Some (Dense t)) sh = (if shape_of t = sh then Inr t else Inl ValueError)"

subsection \<open>The function\<close>

text \<open>Line 55: one dual placeholder per \<open>y\<close>, named from the graph's supply.\<close>

definition dual_placeholders :: "graph \<Rightarrow> tensor list \<Rightarrow> tensor list" where
  "dual_placeholders g ys =
     map2 (\<lambda>i y. add_scalar (zeros_like (op_count g + i) y) NaN) [0..<length ys] ys"

text \<open>Lines 60-61: an entry that is an \<^verbatim>\<open>IndexedSlices\<close> is converted, every other entry
  is kept.\<close>

fun densify :: "grad option \<Rightarrow> grad option" where
  "densify (Some (IndexedSlices v idx s)) =
     Some (Dense (convert_to_tensor (IndexedSlices v idx s)))"
| "densify d = d"

text \<open>Lines 63-67: the assertion instrumentation.\<close>

definition assert_instrumentation :: "grad option list \<Rightarrow> error + grad option list" where
  "assert_instrumentation dydxs =
     (case control_dependencies dydxs of Inl e \<Rightarrow> Inl e
      | Inr deps \<Rightarrow> identity_n False deps dydxs)"

text \<open>Lines 69-70: an absent entry becomes zeros shaped like its \<open>x\<close>.\<close>

fun fill_none :: "nat \<Rightarrow> (tensor \<times> grad option) \<Rightarrow> grad option" where
  "fill_none n (x, None) = Some (Dense (zeros_like n x))"
| "fill_none n (x, Some d) = Some d"

definition fill_nones :: "nat \<Rightarrow> tensor list \<Rightarrow> grad option list \<Rightarrow> grad option list" where
  "fill_nones n xs dydxs =
     map2 (\<lambda>i xd. fill_none (n + i) xd) [0..<length (zip xs dydxs)] (zip xs dydxs)"

text \<open>Lines 71-72: the loop that sets each shape; it stops at the first failure.\<close>

fun set_shapes :: "(tensor \<times> grad option) list \<Rightarrow> error + tensor list" where
  "set_shapes [] = Inr []"
| "set_shapes ((x, dydx) # rest) =
     (case set_shape dydx (shape_of x) of Inl e \<Rightarrow> Inl e
      | Inr t \<Rightarrow> (case set_shapes rest of Inl e \<Rightarrow> Inl e
                  | Inr ts \<Rightarrow> Inr (t # ts)))"

text \<open>Lines 55-72: everything before the second reverse-mode pass. The result is the
  dual placeholders and the intermediate \<open>dydxs\<close>.\<close>

definition fwd_intermediate ::
  "graph \<Rightarrow> tensor list \<Rightarrow> tensor list \<Rightarrow> bool \<Rightarrow> error + (tensor list \<times> tensor list)" where
  "fwd_intermediate g ys xs assert_unused =
     (let us = dual_placeholders g ys in
      case gradients ys xs (Some us) of Inl e \<Rightarrow> Inl e
      | Inr dydxs0 \<Rightarrow>
         (let dydxs1 = map densify dydxs0 in
          case (if assert_unused then assert_instrumentation dydxs1 else Inr dydxs1) of
            Inl e \<Rightarrow> Inl e
          | Inr dydxs2 \<Rightarrow>
             (let dydxs3 = fill_nones (op_count g + length ys) xs dydxs2 in
              case set_shapes (zip xs dydxs3) of Inl e \<Rightarrow> Inl e
              | Inr dydxs \<Rightarrow> Inr (us, dydxs))))"

text \<open>Lines 27-76. The supply of names is passed in and, when the call returns, handed
  back moved past the names reserved for the dual placeholders and the zero fills.\<close>

definition fwd_gradients ::
  "graph \<Rightarrow> tensor list \<Rightarrow> tensor list \<Rightarrow> tensor list option \<Rightarrow> bool
     \<Rightarrow> error + (grad option list \<times> graph)" where
  "fwd_gradients g ys xs grad_xs assert_unused =
     (case fwd_intermediate g ys xs assert_unused of Inl e \<Rightarrow> Inl e
      | Inr (us, dydxs) \<Rightarrow>
         (case gradients dydxs us grad_xs of Inl e \<Rightarrow> Inl e
          | Inr dysdx \<Rightarrow>
              Inr (dysdx, g\<lparr>op_count := op_count g + length ys + length xs\<rparr>)))"

subsection \<open>Running the graph\<close>

text \<open>Modelled from the spec: the numerical kernels of the framework (out of scope in
  section 1) in exact arithmetic: the sum and the product of two elements as real numbers,
  with no rounding, overflow or infinity, and the sentinel absorbing. This is the value
  that a graph denotes; what a single-precision run makes of it follows below.\<close>

fun fadd :: "fval \<Rightarrow> fval \<Rightarrow> fval" where
  "fadd (Num a) (Num b) = Num (a + b)"
| "fadd _ _ = NaN"

fun fmul :: "fval \<Rightarrow> fval \<Rightarrow> fval" where
  "fmul (Num a) (Num b) = Num (a * b)"
| "fmul _ _ = NaN"

text \<open>Modelled from the spec: the sum of a list of elements, the first failure among
  the outcomes of several nodes, and the sum of the entries of \<open>vs\<close> into the rows that \<open>idx\<close>
  names (the dense form of an indexed representation, glossary).\<close>

definition fsum :: "fval list \<Rightarrow> fval" where
  "fsum vs = foldr fadd vs (Num 0)"

fun first_error :: "(error + 'a) list \<Rightarrow> error option" where
  "first_error [] = None"
| "first_error (Inl e # rs) = Some e"
| "first_error (Inr v # rs) = first_error rs"

definition segment_sum :: "fval list \<Rightarrow> nat list \<Rightarrow> nat \<Rightarrow> fval list" where
  "segment_sum vs idx n =
     map (\<lambda>k. fsum (map (\<lambda>j. vs ! j) (filter (\<lambda>j. idx ! j = k) [0..<min (length vs) (length idx)])))
       [0..<n]"

text \<open>Modelled from the spec: the evaluation of a node under a feed of the placeholders
  (``value-producing capability'', section 6), in exact arithmetic. The value of a tensor is the list of its
  elements, a scalar having one; values are followed along the first axis only, which is
  exact for scalars and vectors. A node under a control dependency runs after the assertion
  it depends on, and the assertion after its own control inputs; a failing assertion
  ``fails the graph evaluation''.\<close>

fun eval :: "(nat \<Rightarrow> real list) \<Rightarrow> tensor \<Rightarrow> error + fval list" where
  "eval env (Placeholder n sh) = Inr (map Num (env n))"
| "eval env (Const v sh) = Inr (replicate (prod_list sh) v)"
| "eval env (ZerosLike n t) =
     (case eval env t of Inl e \<Rightarrow> Inl e | Inr v \<Rightarrow> Inr (map (\<lambda>_. Num 0) v))"
| "eval env (AddScalar t c) =
     (case eval env t of Inl e \<Rightarrow> Inl e | Inr v \<Rightarrow> Inr (map (\<lambda>a. fadd a c) v))"
| "eval env (Add a b) =
     (case eval env a of Inl e \<Rightarrow> Inl e
      | Inr va \<Rightarrow> (case eval env b of Inl e \<Rightarrow> Inl e | Inr vb \<Rightarrow> Inr (map2 fadd va vb)))"
| "eval env (Mul a b) =
     (case eval env a of Inl e \<Rightarrow> Inl e
      | Inr va \<Rightarrow> (case eval env b of Inl e \<Rightarrow> Inl e | Inr vb \<Rightarrow> Inr (map2 fmul va vb)))"
| "eval env (Gather p idx) =
     (case eval env p of Inl e \<Rightarrow> Inl e
      | Inr v \<Rightarrow> if list_all (\<lambda>i. i < length v) idx then Inr (map (\<lambda>i. v ! i) idx)
                 else Inl OutOfRange)"
| "eval env (UnsortedSegmentSum t idx n) =
     (case eval env t of Inl e \<Rightarrow> Inl e | Inr v \<Rightarrow> Inr (segment_sum v idx n))"
| "eval env (IdentityN c deps t) =
     (case first_error (map (eval env) deps) of Some e \<Rightarrow> Inl e
      | None \<Rightarrow> if c then eval env t else Inl AssertionFailed)"

subsection \<open>Running the graph in single precision\<close>

text \<open>Modelled from the spec: a single-precision floating-point element (``floating-point
  numeric types'', section 9): not-a-number, an infinity with its sign (\<open>True\<close> for minus),
  or a finite number. The sign of a zero is not kept.\<close>

datatype f32 = F32_NaN | F32_Inf bool | F32 real

text \<open>Modelled from the spec: rounding to the nearest integer, ties to the even one.\<close>

definition round_half_even :: "real \<Rightarrow> int" where
  "round_half_even r =
     (let f = \<lfloor>r\<rfloor> in
      if r - of_int f < 1 / 2 then f
      else if 1 / 2 < r - of_int f then f + 1
      else if even f then f else f + 1)"

text \<open>Modelled from the spec: the exponent of the last place of a 24-bit significand at
  \<open>x\<close>, no smaller than that of the subnormal numbers.\<close>

definition ulp_exponent :: "real \<Rightarrow> int" where
  "ulp_exponent x = max (\<lfloor>log 2 \<bar>x\<bar>\<rfloor> - 23) (- 149)"

text \<open>Modelled from the spec: the single-precision number nearest to a real one, ties to
  even, and infinity beyond the largest finite number.\<close>

definition round_f32 :: "real \<Rightarrow> f32" where
  "round_f32 x =
     (if x = 0 then F32 0
      else let q = 2 powr of_int (ulp_exponent x);
               y = q * of_int (round_half_even (x / q))
           in if 2 ^ 128 \<le> \<bar>y\<bar> then F32_Inf (x < 0) else F32 y)"

text \<open>Modelled from the spec: single-precision addition and multiplication, each the
  rounded exact result.\<close>

fun fadd32 :: "f32 \<Rightarrow> f32 \<Rightarrow> f32" where
  "fadd32 (F32 a) (F32 b) = round_f32 (a + b)"
| "fadd32 (F32_Inf s) (F32_Inf s') = (if s = s' then F32_Inf s else F32_NaN)"
| "fadd32 (F32_Inf s) (F32 b) = F32_Inf s"
| "fadd32 (F32 a) (F32_Inf s) = F32_Inf s"
| "fadd32 _ _ = F32_NaN"

fun fmul32 :: "f32 \<Rightarrow> f32 \<Rightarrow> f32" where
  "fmul32 (F32 a) (F32 b) = round_f32 (a * b)"
| "fmul32 (F32_Inf s) (F32_Inf s') = F32_Inf (s \<noteq> s')"
| "fmul32 (F32_Inf s) (F32 b) = (if b = 0 then F32_NaN else F32_Inf (s \<noteq> (b < 0)))"
| "fmul32 (F32 a) (F32_Inf s) = (if a = 0 then F32_NaN else F32_Inf (s \<noteq> (a < 0)))"
| "fmul32 _ _ = F32_NaN"

text \<open>Modelled from the spec: a constant of the graph as a single-precision element.\<close>

fun f32_of :: "fval \<Rightarrow> f32" where
  "f32_of NaN = F32_NaN"
| "f32_of (Num r) = round_f32 r"

text \<open>Modelled from the spec: the sums of \<open>fsum\<close> and \<open>segment_sum\<close> in single
  precision.\<close>

definition fsum32 :: "f32 list \<Rightarrow> f32" where
  "fsum32 vs = foldr fadd32 vs (F32 0)"

definition segment_sum32 :: "f32 list \<Rightarrow> nat list \<Rightarrow> nat \<Rightarrow> f32 list" where
  "segment_sum32 vs idx n =
     map (\<lambda>k. fsum32 (map (\<lambda>j. vs ! j)
                   (filter (\<lambda>j. idx ! j = k) [0..<min (length vs) (length idx)])))
       [0..<n]"

text \<open>Modelled from the spec: the evaluation of a node as \<open>eval\<close> does it, with feeds,
  constants and every operation in single precision.\<close>

fun eval32 :: "(nat \<Rightarrow> real list) \<Rightarrow> tensor \<Rightarrow> error + f32 list" where
  "eval32 env (Placeholder n sh) = Inr (map round_f32 (env n))"
| "eval32 env (Const v sh) = Inr (replicate (prod_list sh) (f32_of v))"
| "eval32 env (ZerosLike n t) =
     (case eval32 env t of Inl e \<Rightarrow> Inl e | Inr v \<Rightarrow> Inr (map (\<lambda>_. F32 0) v))"
| "eval32 env (AddScalar t c) =
     (case eval32 env t of Inl e \<Rightarrow> Inl e | Inr v \<Rightarrow> Inr (map (\<lambda>a. fadd32 a (f32_of c)) v))"
| "eval32 env (Add a b) =
     (case eval32 env a of Inl e \<Rightarrow> Inl e
      | Inr va \<Rightarrow> (case eval32 env b of Inl e \<Rightarrow> Inl e | Inr vb \<Rightarrow> Inr (map2 fadd32 va vb)))"
| "eval32 env (Mul a b) =
     (case eval32 env a of Inl e \<Rightarrow> Inl e
      | Inr va \<Rightarrow> (case eval32 env b of Inl e \<Rightarrow> Inl e | Inr vb \<Rightarrow> Inr (map2 fmul32 va vb)))"
| "eval32 env (Gather p idx) =
     (case eval32 env p of Inl e \<Rightarrow> Inl e
      | Inr v \<Rightarrow> if list_all (\<lambda>i. i < length v) idx then Inr (map (\<lambda>i. v ! i) idx)
                 else Inl OutOfRange)"
| "eval32 env (UnsortedSegmentSum t idx n) =
     (case eval32 env t of Inl e \<Rightarrow> Inl e | Inr v \<Rightarrow> Inr (segment_sum32 v idx n))"
| "eval32 env (IdentityN c deps t) =
     (case first_error (map (eval32 env) deps) of Some e \<Rightarrow> Inl e
      | None \<Rightarrow> if c then eval32 env t else Inl AssertionFailed)"


subsection \<open>Valid graphs and the two passes, spelled out\<close>

text \<open>The framework builds no node whose operands disagree in shape: every tensor a
  caller can hold is well shaped.\<close>

fun well_shaped :: "tensor \<Rightarrow> bool" where
  "well_shaped (Placeholder n s) = True"
| "well_shaped (Const v s) = True"
| "well_shaped (ZerosLike n t) = well_shaped t"
| "well_shaped (AddScalar t c) = well_shaped t"
| "well_shaped (Add a b) = (well_shaped a \<and> well_shaped b \<and> shape_of a = shape_of b)"
| "well_shaped (Mul a b) = (well_shaped a \<and> well_shaped b \<and> shape_of a = shape_of b)"
| "well_shaped (Gather p idx) = (well_shaped p \<and> shape_of p \<noteq> [])"
| "well_shaped (UnsortedSegmentSum v idx n) =
     (well_shaped v \<and> shape_of v \<noteq> [] \<and> hd (shape_of v) = length idx)"
| "well_shaped (IdentityN c deps t) = well_shaped t"

text \<open>What the first reverse-mode call (line 57) returns, and the \<open>dydxs\<close> that reach the
  second call when no assertion is requested.\<close>

definition first_pass :: "graph \<Rightarrow> tensor list \<Rightarrow> tensor list \<Rightarrow> grad option list" where
  "first_pass g ys xs =
     map (\<lambda>x. foldl add_grads None
                 (map2 (\<lambda>y s. backprop y x s) ys (dual_placeholders g ys))) xs"

definition dydxs_plain :: "graph \<Rightarrow> tensor list \<Rightarrow> tensor list \<Rightarrow> tensor list" where
  "dydxs_plain g ys xs =
     map (\<lambda>i. case first_pass g ys xs ! i of
                 None \<Rightarrow> ZerosLike (op_count g + length ys + i) (xs ! i)
               | Some gr \<Rightarrow> convert_to_tensor gr) [0..<length xs]"

subsection \<open>Scaling\<close>

text \<open>The outcome of a run with every element multiplied by \<open>c\<close>, and two results of a
  reverse-mode pass of which the second evaluates to \<open>c\<close> times the first (an indexed result
  is read through its dense conversion).\<close>

definition scaled :: "real \<Rightarrow> error + fval list \<Rightarrow> error + fval list" where
  "scaled c r = (case r of Inl e \<Rightarrow> Inl e | Inr v \<Rightarrow> Inr (map (fmul (Num c)) v))"


text \<open>A list with the entry at position \<open>i\<close> left out.\<close>

definition drop_nth :: "nat \<Rightarrow> 'a list \<Rightarrow> 'a list" where
  "drop_nth i xs = take i xs @ drop (Suc i) xs"

subsection \<open>Nodes of the caller and nodes of the call\<close>

text \<open>The operation names carried by the nodes of an expression.\<close>

fun names :: "tensor \<Rightarrow> nat list" where
  "names (Placeholder n sh) = [n]"
| "names (Const v sh) = []"
| "names (ZerosLike n t) = n # names t"
| "names (AddScalar t c) = names t"
| "names (Add a b) = names a @ names b"
| "names (Mul a b) = names a @ names b"
| "names (Gather p idx) = names p"
| "names (UnsortedSegmentSum v idx n) = names v"
| "names (IdentityN c deps t) = concat (map names deps) @ names t"

text \<open>A tensor the caller can hold is built from names the graph has handed out already;
  a tensor that carries a name not yet handed out is a node this call creates.\<close>

definition registered :: "graph \<Rightarrow> tensor \<Rightarrow> bool" where
  "registered g t = list_all (\<lambda>n. n < op_count g) (names t)"

definition is_new :: "graph \<Rightarrow> tensor \<Rightarrow> bool" where
  "is_new g t = list_ex (\<lambda>n. op_count g \<le> n) (names t)"

subsection \<open>The ambient graph as a store\<close>

text \<open>Modelled from the spec: the ambient computation graph that graph construction
  mutates (section 9): the tensor-valued nodes registered so far, in the order of their
  registration, the assertions registered, each with its condition and its control inputs,
  and the shape recorded for a node, which \<^verbatim>\<open>set_shape\<close> updates in place. The nodes are
  those the expressions of the model show; the framework registers further auxiliary
  operations of its own, which the model does not represent.\<close>

record ambient =
  nodes :: "tensor list"
  assertions :: "(bool \<times> tensor list) list"
  static_shape :: "tensor \<Rightarrow> shape option"

text \<open>The nodes of an expression, inputs before the node they feed.\<close>

fun subterms :: "tensor \<Rightarrow> tensor list" where
  "subterms (Placeholder n sh) = [Placeholder n sh]"
| "subterms (Const v sh) = [Const v sh]"
| "subterms (ZerosLike n t) = subterms t @ [ZerosLike n t]"
| "subterms (AddScalar t c) = subterms t @ [AddScalar t c]"
| "subterms (Add a b) = subterms a @ subterms b @ [Add a b]"
| "subterms (Mul a b) = subterms a @ subterms b @ [Mul a b]"
| "subterms (Gather p idx) = subterms p @ [Gather p idx]"
| "subterms (UnsortedSegmentSum v idx n) = subterms v @ [UnsortedSegmentSum v idx n]"
| "subterms (IdentityN c deps t) =
     concat (map subterms deps) @ subterms t @ [IdentityN c deps t]"

text \<open>Modelled from the spec: the registration of new nodes ``as a side effect of graph
  construction'' (section 4.1). A node is registered once; building a tensor registers the
  nodes of its expression that the graph does not hold yet.\<close>

definition add_node :: "tensor \<Rightarrow> ambient \<Rightarrow> ambient" where
  "add_node t A = (if t \<in> set (nodes A) then A else A\<lparr>nodes := nodes A @ [t]\<rparr>)"

definition register :: "tensor list \<Rightarrow> ambient \<Rightarrow> ambient" where
  "register ts A = fold add_node (concat (map subterms ts)) A"

text \<open>The tensors through which an entry of a reverse-mode result is held, and the
  registration of the nodes of a whole result.\<close>

fun grad_nodes :: "grad option \<Rightarrow> tensor list" where
  "grad_nodes None = []"
| "grad_nodes (Some (Dense t)) = [t]"
| "grad_nodes (Some (IndexedSlices v idx s)) = [v]"

definition register_grads :: "grad option list \<Rightarrow> ambient \<Rightarrow> ambient" where
  "register_grads ds A = register (concat (map grad_nodes ds)) A"

text \<open>Lines 63-67 with the graph: the assertion is registered once its control inputs are
  accepted, and the pass-through nodes once \<^verbatim>\<open>identity_n\<close> has accepted its inputs.\<close>

definition assert_instrumentation_in ::
  "grad option list \<Rightarrow> ambient \<Rightarrow> ambient \<times> (error + grad option list)" where
  "assert_instrumentation_in dydxs A =
     (case control_dependencies dydxs of Inl e \<Rightarrow> (A, Inl e)
      | Inr deps \<Rightarrow>
         (let A' = A\<lparr>assertions := assertions A @ [(False, deps)]\<rparr> in
          case identity_n False deps dydxs of Inl e \<Rightarrow> (A', Inl e)
          | Inr r \<Rightarrow> (register_grads r A', Inr r)))"

text \<open>Lines 71-72 with the graph: each \<^verbatim>\<open>set_shape\<close> that succeeds records the shape at
  the node it is called on; the loop stops at the first failure and keeps what it has
  recorded until then.\<close>

fun set_shapes_in ::
  "(tensor \<times> grad option) list \<Rightarrow> ambient \<Rightarrow> ambient \<times> (error + tensor list)" where
  "set_shapes_in [] A = (A, Inr [])"
| "set_shapes_in ((x, dydx) # rest) A =
     (case set_shape dydx (shape_of x) of Inl e \<Rightarrow> (A, Inl e)
      | Inr t \<Rightarrow>
         (case set_shapes_in rest (A\<lparr>static_shape := (static_shape A)(t \<mapsto> shape_of x)\<rparr>) of
            (A', Inl e) \<Rightarrow> (A', Inl e)
          | (A', Inr ts) \<Rightarrow> (A', Inr (t # ts))))"

text \<open>Lines 27-76 with the graph threaded through: every statement registers the nodes it
  builds, and a failure hands back the graph as it is at that point.\<close>

definition fwd_gradients_in ::
  "ambient \<Rightarrow> graph \<Rightarrow> tensor list \<Rightarrow> tensor list \<Rightarrow> tensor list option \<Rightarrow> bool
     \<Rightarrow> ambient \<times> (error + grad option list)" where
  "fwd_gradients_in A g ys xs grad_xs assert_unused =
     (let us = dual_placeholders g ys; A1 = register us A in
      case gradients ys xs (Some us) of Inl e \<Rightarrow> (A1, Inl e)
      | Inr dydxs0 \<Rightarrow>
         (let A2 = register_grads dydxs0 A1;
              dydxs1 = map densify dydxs0;
              A3 = register_grads dydxs1 A2 in
          case (if assert_unused then assert_instrumentation_in dydxs1 A3
                else (A3, Inr dydxs1)) of
            (A4, Inl e) \<Rightarrow> (A4, Inl e)
          | (A4, Inr dydxs2) \<Rightarrow>
             (let dydxs3 = fill_nones (op_count g + length ys) xs dydxs2;
                  A5 = register_grads dydxs3 A4 in
              case set_shapes_in (zip xs dydxs3) A5 of
                (A6, Inl e) \<Rightarrow> (A6, Inl e)
              | (A6, Inr dydxs) \<Rightarrow>
                 (case gradients dydxs us grad_xs of Inl e \<Rightarrow> (A6, Inl e)
                  | Inr dysdx \<Rightarrow> (register_grads dysdx A6, Inr dysdx)))))"

text \<open>The second graph holds everything the first holds, in the same order, and what it
  holds besides is new.\<close>

definition extends :: "ambient \<Rightarrow> ambient \<Rightarrow> bool" where
  "extends A A' \<longleftrightarrow>
     take (length (nodes A)) (nodes A') = nodes A
     \<and> list_all (\<lambda>t. t \<notin> set (nodes A)) (drop (length (nodes A)) (nodes A'))
     \<and> take (length (assertions A)) (assertions A') = assertions A"

subsection \<open>Shapes of reverse-mode results\<close>

lemma add_grads_shape:
  assumes "\<And>a. ga = Some a \<Longrightarrow> shape_of (convert_to_tensor a) = sh"
    and "\<And>b. gb = Some b \<Longrightarrow> shape_of (convert_to_tensor b) = sh"
    and "add_grads ga gb = Some r"
  shows "shape_of (convert_to_tensor r) = sh"
  using assms by (cases ga; cases gb) auto

lemma backprop_shape:
  "well_shaped y \<Longrightarrow> shape_of s = shape_of y \<Longrightarrow> backprop y x s = Some r
     \<Longrightarrow> shape_of (convert_to_tensor r) = shape_of x"
proof (induction y x s arbitrary: r rule: backprop.induct)
  case (5 a b x s)
  show ?case
  proof (cases "Add a b = x")
    case True with 5 show ?thesis by auto
  next
    case False
    with 5 have r: "add_grads (backprop a x s) (backprop b x s) = Some r" by simp
    show ?thesis
      by (rule add_grads_shape[OF _ _ r]) (use 5 False in auto)
  qed
next
  case (6 a b x s)
  show ?case
  proof (cases "Mul a b = x")
    case True with 6 show ?thesis by auto
  next
    case False
    with 6 have r: "add_grads (backprop a x (Mul s b)) (backprop b x (Mul s a)) = Some r" by simp
    show ?thesis
      by (rule add_grads_shape[OF _ _ r]) (use 6 False in auto)
  qed
next
  case (7 p idx x s)
  then show ?case by (auto split: if_splits simp: hd_Cons_tl)
next
  case (8 v idx n x s)
  then show ?case by (auto split: if_splits) (metis list.collapse)
qed (auto split: if_splits)

lemma foldl_add_grads_shape:
  assumes "\<forall>(y, s) \<in> set zs. well_shaped y \<and> shape_of s = shape_of y"
    and "\<And>a. acc = Some a \<Longrightarrow> shape_of (convert_to_tensor a) = shape_of x"
    and "foldl add_grads acc (map (\<lambda>(y, s). backprop y x s) zs) = Some r"
  shows "shape_of (convert_to_tensor r) = shape_of x"
  using assms
proof (induction zs arbitrary: acc)
  case Nil
  then show ?case by simp
next
  case (Cons z zs)
  obtain y s where z: "z = (y, s)" by (cases z)
  have step: "\<And>a. add_grads acc (backprop y x s) = Some a
      \<Longrightarrow> shape_of (convert_to_tensor a) = shape_of x"
  proof -
    fix a assume a: "add_grads acc (backprop y x s) = Some a"
    show "shape_of (convert_to_tensor a) = shape_of x"
      by (rule add_grads_shape[OF _ _ a]) (use Cons.prems z backprop_shape in auto)
  qed
  show ?case
    by (rule Cons.IH[of "add_grads acc (backprop y x s)"])
       (use Cons.prems z step in auto)
qed

lemma gradients_length:
  "gradients ys xs gs = Inr r \<Longrightarrow> length r = length xs"
  by (auto simp: gradients_def Let_def split: if_splits)

lemma gradients_Some_nth:
  assumes "gradients ys xs (Some seeds) = Inr r" and "i < length xs"
  shows "r ! i = foldl add_grads None (map (\<lambda>(y, s). backprop y (xs ! i) s) (zip ys seeds))"
  using assms by (auto simp: gradients_def Let_def split: if_splits)

lemma gradients_shape:
  assumes "gradients ys xs (Some seeds) = Inr r"
    and "\<forall>(y, s) \<in> set (zip ys seeds). well_shaped y \<and> shape_of s = shape_of y"
    and "i < length xs" and "r ! i = Some d"
  shows "shape_of (convert_to_tensor d) = shape_of (xs ! i)"
proof -
  have "foldl add_grads None (map (\<lambda>(y, s). backprop y (xs ! i) s) (zip ys seeds)) = Some d"
    using gradients_Some_nth[OF assms(1,3)] assms(4) by simp
  from foldl_add_grads_shape[OF assms(2) _ this] show ?thesis by simp
qed

lemma length_dual_placeholders [simp]: "length (dual_placeholders g ys) = length ys"
  by (simp add: dual_placeholders_def)

lemma nth_dual_placeholders:
  "i < length ys \<Longrightarrow>
     dual_placeholders g ys ! i = AddScalar (ZerosLike (op_count g + i) (ys ! i)) NaN"
  by (simp add: dual_placeholders_def add_scalar_def zeros_like_def)

lemma dual_placeholders_seeds:
  assumes "list_all well_shaped ys"
  shows "\<forall>(y, s) \<in> set (zip ys (dual_placeholders g ys)). well_shaped y \<and> shape_of s = shape_of y"
proof -
  { fix y s assume "(y, s) \<in> set (zip ys (dual_placeholders g ys))"
    then obtain i where i: "i < length ys" "y = ys ! i" "s = dual_placeholders g ys ! i"
      by (auto simp: set_zip)
    then have "well_shaped y \<and> shape_of s = shape_of y"
      using assms by (simp add: nth_dual_placeholders list_all_length) }
  then show ?thesis by auto
qed

lemma gradients_first_pass:
  "gradients ys xs (Some (dual_placeholders g ys)) = Inr (first_pass g ys xs)"
  by (simp add: gradients_def first_pass_def)

lemma length_first_pass [simp]: "length (first_pass g ys xs) = length xs"
  by (simp add: first_pass_def)

lemma first_pass_shape:
  assumes "list_all well_shaped ys" and "i < length xs" and "first_pass g ys xs ! i = Some d"
  shows "shape_of (convert_to_tensor d) = shape_of (xs ! i)"
  using gradients_shape[OF gradients_first_pass dual_placeholders_seeds[OF assms(1)] assms(2,3)] .

lemma densify_cases:
  "densify d = (case d of None \<Rightarrow> None | Some gr \<Rightarrow> Some (Dense (convert_to_tensor gr)))"
  by (cases d rule: densify.cases) auto

lemma length_fill_nones [simp]:
  "length (fill_nones n xs ds) = min (length xs) (length ds)"
  by (simp add: fill_nones_def)

lemma nth_fill_nones:
  "i < length xs \<Longrightarrow> i < length ds \<Longrightarrow>
     fill_nones n xs ds ! i = fill_none (n + i) (xs ! i, ds ! i)"
  by (simp add: fill_nones_def)

lemma set_shapes_Inr:
  assumes "length ds = length xs"
    and "\<forall>i<length xs. \<exists>t. ds ! i = Some (Dense t) \<and> shape_of t = shape_of (xs ! i)"
  shows "set_shapes (zip xs ds) = Inr (map (\<lambda>d. convert_to_tensor (the d)) ds)"
  using assms
proof (induction ds xs rule: list_induct2)
  case Nil
  then show ?case by simp
next
  case (Cons d ds x xs)
  from Cons.prems obtain t where t: "d = Some (Dense t)" "shape_of t = shape_of x"
    by fastforce
  have "\<forall>i<length xs. \<exists>t. ds ! i = Some (Dense t) \<and> shape_of t = shape_of (xs ! i)"
    using Cons.prems by fastforce
  from Cons.IH[OF this] t show ?case by simp
qed

lemma control_dependencies_Inr:
  "None \<notin> set ds \<Longrightarrow> \<exists>deps. control_dependencies ds = Inr deps"
proof (induction ds)
  case Nil
  then show ?case by simp
next
  case (Cons d ds)
  then obtain deps where "control_dependencies ds = Inr deps" by auto
  moreover obtain gr where "d = Some gr" using Cons.prems by (cases d) auto
  ultimately show ?case by (cases gr) auto
qed

lemma control_dependencies_None:
  "None \<in> set ds \<Longrightarrow> control_dependencies ds = Inl TypeError"
proof (induction ds)
  case Nil
  then show ?case by simp
next
  case (Cons d ds)
  show ?case
  proof (cases d)
    case None
    then show ?thesis by simp
  next
    case (Some gr)
    with Cons have "control_dependencies ds = Inl TypeError" by auto
    with Some show ?thesis by (cases gr) auto
  qed
qed

lemma identity_n_Inr:
  "None \<notin> set ds \<Longrightarrow>
     identity_n c deps ds
       = Inr (map (\<lambda>d. Some (Dense (IdentityN c deps (convert_to_tensor (the d))))) ds)"
proof (induction ds)
  case Nil
  then show ?case by simp
next
  case (Cons d ds)
  then obtain gr where "d = Some gr" by (cases d) auto
  with Cons show ?case by simp
qed

lemma fwd_intermediate_False:
  assumes "list_all well_shaped ys"
  shows "fwd_intermediate g ys xs False = Inr (dual_placeholders g ys, dydxs_plain g ys xs)"
proof -
  let ?fp = "first_pass g ys xs"
  let ?ds = "fill_nones (op_count g + length ys) xs (map densify ?fp)"
  have len: "length ?ds = length xs" by simp
  have entry: "?ds ! i = Some (Dense (dydxs_plain g ys xs ! i))
      \<and> shape_of (dydxs_plain g ys xs ! i) = shape_of (xs ! i)" if i: "i < length xs" for i
  proof (cases "?fp ! i")
    case None
    with i show ?thesis
      by (simp add: nth_fill_nones dydxs_plain_def densify_cases zeros_like_def)
  next
    case (Some gr)
    from first_pass_shape[OF assms i Some] Some i show ?thesis
      by (simp add: nth_fill_nones dydxs_plain_def densify_cases)
  qed
  have "set_shapes (zip xs ?ds) = Inr (map (\<lambda>d. convert_to_tensor (the d)) ?ds)"
    by (rule set_shapes_Inr[OF len]) (use entry in blast)
  moreover have "map (\<lambda>d. convert_to_tensor (the d)) ?ds = dydxs_plain g ys xs"
    by (rule nth_equalityI) (use entry in \<open>auto simp: dydxs_plain_def\<close>)
  ultimately show ?thesis
    by (simp add: fwd_intermediate_def gradients_first_pass Let_def)
qed

lemma fwd_intermediate_True_None:
  assumes "None \<in> set (first_pass g ys xs)"
  shows "fwd_intermediate g ys xs True = Inl TypeError"
proof -
  have "None \<in> set (map densify (first_pass g ys xs))"
    using assms by (force simp: densify_cases)
  then show ?thesis
    by (simp add: fwd_intermediate_def gradients_first_pass Let_def
        assert_instrumentation_def control_dependencies_None)
qed

lemma fwd_intermediate_True:
  assumes "list_all well_shaped ys" and "None \<notin> set (first_pass g ys xs)"
  shows "\<exists>deps. fwd_intermediate g ys xs True 
     = Inr (dual_placeholders g ys, map (IdentityN False deps) (dydxs_plain g ys xs))"
proof -
  let ?fp = "first_pass g ys xs"
  let ?d1 = "map densify ?fp"
  have nn: "None \<notin> set ?d1" using assms(2) by (auto simp: densify_cases split: option.splits)
  from control_dependencies_Inr[OF nn] obtain deps where deps: "control_dependencies ?d1 = Inr deps"
    by blast
  let ?d2 = "map (\<lambda>d. Some (Dense (IdentityN False deps (convert_to_tensor (the d))))) ?d1"
  have ai: "assert_instrumentation ?d1 = Inr ?d2"
    by (simp add: assert_instrumentation_def deps identity_n_Inr[OF nn])
  let ?ds = "fill_nones (op_count g + length ys) xs ?d2"
  let ?res = "map (IdentityN False deps) (dydxs_plain g ys xs)"
  have len: "length ?ds = length xs" by simp
  have entry: "?ds ! i = Some (Dense (?res ! i)) \<and> shape_of (?res ! i) = shape_of (xs ! i)"
    if i: "i < length xs" for i
  proof -
    from assms(2) i obtain gr where gr: "?fp ! i = Some gr"
      by (cases "?fp ! i") (auto simp: in_set_conv_nth)
    from first_pass_shape[OF assms(1) i gr] gr i show ?thesis
      by (simp add: nth_fill_nones dydxs_plain_def densify_cases)
  qed
  have "set_shapes (zip xs ?ds) = Inr (map (\<lambda>d. convert_to_tensor (the d)) ?ds)"
    by (rule set_shapes_Inr[OF len]) (use entry in blast)
  moreover have "map (\<lambda>d. convert_to_tensor (the d)) ?ds = ?res"
    by (rule nth_equalityI) (use entry in \<open>auto simp: dydxs_plain_def\<close>)
  ultimately have "fwd_intermediate g ys xs True = Inr (dual_placeholders g ys, ?res)"
    by (simp add: fwd_intermediate_def gradients_first_pass Let_def ai)
  then show ?thesis by blast
qed

subsection \<open>The result is the raw output of the second pass\<close>

text \<open>
  Claim C10. Whenever the call returns, the returned sequence is exactly what the second
  reverse-mode call \<open>gradients dydxs us grad_xs\<close> returned: nothing is converted, filled or
  reshaped after it.
\<close>

theorem fwd_gradients_returns_second_pass:
  "(fwd_gradients g ys xs grad_xs a = Inr (dysdx, g') \<longrightarrow>
      (\<exists>us dydxs. fwd_intermediate g ys xs a = Inr (us, dydxs)
         \<and> gradients dydxs us grad_xs = Inr dysdx))
   \<and> fwd_gradients \<lparr>op_count = 1\<rparr> [Const (Num 3) []] [Placeholder 0 []] None False
       = Inr ([None], \<lparr>op_count = 3\<rparr>)
   \<and> fwd_gradients \<lparr>op_count = 1\<rparr> [UnsortedSegmentSum (Placeholder 0 [2]) [0, 0] 1]
         [Placeholder 0 [2]] None False
       = Inr ([Some (IndexedSlices (Const (Num 1) [2]) [0, 0] [1])], \<lparr>op_count = 3\<rparr>)"
proof (intro conjI impI)
  assume "fwd_gradients g ys xs grad_xs a = Inr (dysdx, g')"
  then show "\<exists>us dydxs. fwd_intermediate g ys xs a = Inr (us, dydxs)
         \<and> gradients dydxs us grad_xs = Inr dysdx"
    by (auto simp: fwd_gradients_def split: sum.splits prod.splits)
next
  show "fwd_gradients \<lparr>op_count = 1\<rparr> [Const (Num 3) []] [Placeholder 0 []] None False
       = Inr ([None], \<lparr>op_count = 3\<rparr>)"
    by code_simp
next
  show "fwd_gradients \<lparr>op_count = 1\<rparr> [UnsortedSegmentSum (Placeholder 0 [2]) [0, 0] 1]
         [Placeholder 0 [2]] None False
       = Inr ([Some (IndexedSlices (Const (Num 1) [2]) [0, 0] [1])], \<lparr>op_count = 3\<rparr>)"
    by code_simp
qed

theorem fwd_gradients_returns_second_pass_witness:
  "fwd_gradients \<lparr>op_count = 2\<rparr> [Placeholder 0 []] [Placeholder 0 [], Placeholder 1 []]
       None False = Inr ([Some (Dense (Const (Num 1) []))], \<lparr>op_count = 5\<rparr>)
   \<and> (\<exists>us dydxs.
         fwd_intermediate \<lparr>op_count = 2\<rparr> [Placeholder 0 []]
            [Placeholder 0 [], Placeholder 1 []] False = Inr (us, dydxs)
         \<and> gradients dydxs us None = Inr [Some (Dense (Const (Num 1) []))])"
proof -
  have h: "fwd_gradients \<lparr>op_count = 2\<rparr> [Placeholder 0 []]
       [Placeholder 0 [], Placeholder 1 []] None False
     = Inr ([Some (Dense (Const (Num 1) []))], \<lparr>op_count = 5\<rparr>)"
    by code_simp
  from fwd_gradients_returns_second_pass
    [of "\<lparr>op_count = 2\<rparr>" "[Placeholder 0 []]" "[Placeholder 0 [], Placeholder 1 []]"
        None False "[Some (Dense (Const (Num 1) []))]" "\<lparr>op_count = 5\<rparr>"] h
  show ?thesis by blast
qed

subsection \<open>What reaches the second pass\<close>

lemma identity_n_length:
  "identity_n c deps ds = Inr r \<Longrightarrow> length r = length ds"
proof (induction ds arbitrary: r)
  case Nil
  then show ?case by simp
next
  case (Cons d ds)
  then show ?case by (cases d) (auto split: sum.splits)
qed

lemma set_shape_Inr:
  "set_shape d sh = Inr t \<Longrightarrow> d = Some (Dense t) \<and> shape_of t = sh"
  by (cases "(d, sh)" rule: set_shape.cases) (auto split: if_splits)

lemma set_shapes_shapes:
  "set_shapes zs = Inr ts \<Longrightarrow> map shape_of ts = map (\<lambda>z. shape_of (fst z)) zs"
proof (induction zs arbitrary: ts)
  case Nil
  then show ?case by simp
next
  case (Cons z zs)
  obtain x d where z: "z = (x, d)" by (cases z)
  from Cons.prems z obtain t ts' where
    t: "set_shape d (shape_of x) = Inr t" and ts': "set_shapes zs = Inr ts'" and
    ts: "ts = t # ts'"
    by (auto split: sum.splits)
  from set_shape_Inr[OF t] Cons.IH[OF ts'] z ts show ?case by simp
qed

lemma fwd_intermediate_unfold:
  "fwd_intermediate g ys xs a =
     (case (if a then assert_instrumentation (map densify (first_pass g ys xs))
            else Inr (map densify (first_pass g ys xs))) of
        Inl e \<Rightarrow> Inl e
      | Inr d2 \<Rightarrow>
         (case set_shapes (zip xs (fill_nones (op_count g + length ys) xs d2)) of
            Inl e \<Rightarrow> Inl e
          | Inr dydxs \<Rightarrow> Inr (dual_placeholders g ys, dydxs)))"
proof (cases a)
  case True
  show ?thesis
    by (cases "assert_instrumentation (map densify (first_pass g ys xs))")
       (simp_all add: True fwd_intermediate_def gradients_first_pass Let_def)
next
  case False
  then show ?thesis
    by (simp add: fwd_intermediate_def gradients_first_pass Let_def)
qed

lemma assert_instrumentation_length:
  "assert_instrumentation ds = Inr r \<Longrightarrow> length r = length ds"
  unfolding assert_instrumentation_def
  by (cases "control_dependencies ds") (simp_all add: identity_n_length)

lemma fwd_intermediate_shapes:
  assumes "fwd_intermediate g ys xs a = Inr (us, dydxs)"
  shows "us = dual_placeholders g ys \<and> map shape_of dydxs = map shape_of xs"
proof -
  let ?d1 = "map densify (first_pass g ys xs)"
  let ?r = "if a then assert_instrumentation ?d1 else Inr ?d1"
  obtain d2 where d2: "?r = Inr d2"
    using assms unfolding fwd_intermediate_unfold by (cases ?r) simp_all
  let ?ds = "fill_nones (op_count g + length ys) xs d2"
  obtain ts where ts: "set_shapes (zip xs ?ds) = Inr ts"
    using assms unfolding fwd_intermediate_unfold d2
    by (cases "set_shapes (zip xs ?ds)") simp_all
  from assms have us: "us = dual_placeholders g ys" and dy: "dydxs = ts"
    unfolding fwd_intermediate_unfold d2 by (simp_all add: ts)
  have len: "length d2 = length xs"
  proof (cases a)
    case True
    with d2 have "assert_instrumentation ?d1 = Inr d2" by simp
    from assert_instrumentation_length[OF this] show ?thesis by simp
  next
    case False
    with d2 show ?thesis by auto
  qed
  have "map fst (zip xs ?ds) = xs" using len by simp
  moreover have "map (\<lambda>z. shape_of (fst z)) (zip xs ?ds) = map shape_of (map fst (zip xs ?ds))"
    by (simp only: map_map o_def)
  ultimately have "map (\<lambda>z. shape_of (fst z)) (zip xs ?ds) = map shape_of xs" by simp
  with set_shapes_shapes[OF ts] us dy show ?thesis by simp
qed

subsection \<open>The default seed\<close>

text \<open>
  Claim C3. Leaving \<open>grad_xs\<close> out gives the same result as passing, for each \<open>x\<close>, the
  all-ones tensor of the shape of \<open>x\<close>: the same list of nodes, or the same error.
\<close>

theorem default_seed_is_ones:
  "fwd_gradients g ys xs None a
     = fwd_gradients g ys xs (Some (map (\<lambda>x. Const (Num 1) (shape_of x)) xs)) a"
proof (cases "fwd_intermediate g ys xs a")
  case (Inl e)
  then show ?thesis by (simp add: fwd_gradients_def)
next
  case (Inr p)
  obtain us dydxs where p: "p = (us, dydxs)" by (cases p)
  from fwd_intermediate_shapes[OF Inr[unfolded p]]
  have sh: "map shape_of dydxs = map shape_of xs" by simp
  have "default_grad_ys dydxs = map (\<lambda>x. Const (Num 1) (shape_of x)) xs"
  proof -
    have "default_grad_ys dydxs = map (Const (Num 1)) (map shape_of dydxs)"
      by (simp add: default_grad_ys_def)
    also have "\<dots> = map (Const (Num 1)) (map shape_of xs)" by (simp only: sh)
    finally show ?thesis by simp
  qed
  then have "gradients dydxs us None
      = gradients dydxs us (Some (map (\<lambda>x. Const (Num 1) (shape_of x)) xs))"
    by (simp add: gradients_def)
  with Inr p show ?thesis by (simp add: fwd_gradients_def)
qed

subsection \<open>How the first part of the call can end\<close>

lemma set_shapes_Inr_conv:
  "set_shapes zs = Inr ts \<Longrightarrow> ts = map (\<lambda>z. convert_to_tensor (the (snd z))) zs"
proof (induction zs arbitrary: ts)
  case Nil
  then show ?case by simp
next
  case (Cons z zs)
  obtain x d where z: "z = (x, d)" by (cases z)
  from Cons.prems z obtain t ts' where
    t: "set_shape d (shape_of x) = Inr t" and ts': "set_shapes zs = Inr ts'" and
    ts: "ts = t # ts'"
    by (auto split: sum.splits)
  from set_shape_Inr[OF t] Cons.IH[OF ts'] z ts show ?case by simp
qed

lemma set_shapes_Inl:
  "set_shapes zs = Inl e \<Longrightarrow> \<forall>z\<in>set zs. \<exists>t. snd z = Some (Dense t) \<Longrightarrow> e = ValueError"
proof (induction zs)
  case Nil
  then show ?case by simp
next
  case (Cons z zs)
  obtain x d where z: "z = (x, d)" by (cases z)
  from Cons.prems(2) z obtain t where t: "d = Some (Dense t)" by auto
  show ?case
  proof (cases "shape_of t = shape_of x")
    case False
    with Cons.prems(1) z t show ?thesis by simp
  next
    case True
    with Cons.prems(1) z t have "set_shapes zs = Inl e"
      by (cases "set_shapes zs") simp_all
    with Cons.IH Cons.prems(2) show ?thesis by simp
  qed
qed

lemma assert_instrumentation_Inl:
  assumes "assert_instrumentation ds = Inl e"
  shows "e = TypeError \<and> None \<in> set ds"
proof (cases "None \<in> set ds")
  case True
  with assms show ?thesis
    by (simp add: assert_instrumentation_def control_dependencies_None)
next
  case False
  from control_dependencies_Inr[OF False] obtain deps where
    "control_dependencies ds = Inr deps" by blast
  with assms identity_n_Inr[OF False] show ?thesis
    by (simp add: assert_instrumentation_def)
qed

lemma assert_instrumentation_Inr:
  assumes "assert_instrumentation ds = Inr r"
  shows "None \<notin> set ds \<and>
    (\<exists>deps. control_dependencies ds = Inr deps \<and>
        r = map (\<lambda>d. Some (Dense (IdentityN False deps (convert_to_tensor (the d))))) ds)"
proof (cases "None \<in> set ds")
  case True
  with assms show ?thesis
    by (simp add: assert_instrumentation_def control_dependencies_None)
next
  case False
  from control_dependencies_Inr[OF False] obtain deps where
    deps: "control_dependencies ds = Inr deps" by blast
  with assms identity_n_Inr[OF False] have
    "r = map (\<lambda>d. Some (Dense (IdentityN False deps (convert_to_tensor (the d))))) ds"
    by (simp add: assert_instrumentation_def)
  with False deps show ?thesis by blast
qed

lemma fill_nones_dense:
  assumes "length d2 = length xs"
    and "\<forall>d\<in>set d2. \<forall>v idx s. d \<noteq> Some (IndexedSlices v idx s)"
  shows "\<forall>z\<in>set (zip xs (fill_nones n xs d2)). \<exists>t. snd z = Some (Dense t)"
proof
  fix z assume "z \<in> set (zip xs (fill_nones n xs d2))"
  then obtain i where i: "i < length xs" "z = (xs ! i, fill_nones n xs d2 ! i)"
    using assms(1) by (auto simp: set_zip)
  have ns: "\<And>v idx s. d2 ! i \<noteq> Some (IndexedSlices v idx s)"
    using assms i by (metis nth_mem)
  show "\<exists>t. snd z = Some (Dense t)"
  proof (cases "d2 ! i")
    case None
    with i assms(1) show ?thesis by (simp add: nth_fill_nones)
  next
    case (Some gr)
    with ns obtain t where "gr = Dense t" by (cases gr) auto
    with Some i assms(1) show ?thesis by (simp add: nth_fill_nones)
  qed
qed

lemma densify_not_sparse: "densify d \<noteq> Some (IndexedSlices v idx s)"
  by (cases d rule: densify.cases) auto

lemma fwd_intermediate_Inl:
  assumes "fwd_intermediate g ys xs a = Inl e"
  shows "e = ValueError \<or> (e = TypeError \<and> a \<and> None \<in> set (first_pass g ys xs))"
proof -
  let ?d1 = "map densify (first_pass g ys xs)"
  let ?r = "if a then assert_instrumentation ?d1 else Inr ?d1"
  show ?thesis
  proof (cases ?r)
    case (Inl e')
    with assms have e: "e' = e" unfolding fwd_intermediate_unfold by simp
    from Inl have a: a and ai: "assert_instrumentation ?d1 = Inl e'"
      by (auto split: if_splits)
    from assert_instrumentation_Inl[OF ai] have "e' = TypeError" "None \<in> set ?d1" by auto
    then have "None \<in> set (first_pass g ys xs)"
      by (auto simp: densify_cases split: option.splits)
    with e a \<open>e' = TypeError\<close> show ?thesis by simp
  next
    case (Inr d2)
    let ?ds = "fill_nones (op_count g + length ys) xs d2"
    from assms Inr have ss: "set_shapes (zip xs ?ds) = Inl e"
      unfolding fwd_intermediate_unfold by (cases "set_shapes (zip xs ?ds)") simp_all
    have len: "length d2 = length xs"
    proof (cases a)
      case True
      with Inr have "assert_instrumentation ?d1 = Inr d2" by simp
      from assert_instrumentation_length[OF this] show ?thesis by simp
    next
      case False
      with Inr show ?thesis by auto
    qed
    have "\<forall>d\<in>set d2. \<forall>v idx s. d \<noteq> Some (IndexedSlices v idx s)"
    proof (cases a)
      case True
      with Inr have "assert_instrumentation ?d1 = Inr d2" by simp
      from assert_instrumentation_Inr[OF this] show ?thesis by auto
    next
      case False
      with Inr have "d2 = ?d1" by simp
      then show ?thesis using densify_not_sparse by auto
    qed
    from set_shapes_Inl[OF ss fill_nones_dense[OF len this]] show ?thesis by simp
  qed
qed

lemma fwd_intermediate_Inr:
  assumes "fwd_intermediate g ys xs a = Inr (us, dydxs)"
  shows "us = dual_placeholders g ys \<and>
     (\<exists>deps. (a \<longrightarrow> None \<notin> set (first_pass g ys xs)
                  \<and> control_dependencies (map densify (first_pass g ys xs)) = Inr deps)
        \<and> dydxs = map (if a then IdentityN False deps else id) (dydxs_plain g ys xs))"
proof -
  let ?fp = "first_pass g ys xs"
  let ?d1 = "map densify ?fp"
  let ?r = "if a then assert_instrumentation ?d1 else Inr ?d1"
  let ?n = "op_count g + length ys"
  obtain d2 where d2: "?r = Inr d2"
    using assms unfolding fwd_intermediate_unfold by (cases ?r) simp_all
  let ?ds = "fill_nones ?n xs d2"
  obtain ts where ts: "set_shapes (zip xs ?ds) = Inr ts"
    using assms unfolding fwd_intermediate_unfold d2
    by (cases "set_shapes (zip xs ?ds)") simp_all
  from assms have us: "us = dual_placeholders g ys" and dy: "dydxs = ts"
    unfolding fwd_intermediate_unfold d2 by (simp_all add: ts)
  have len: "length d2 = length xs"
  proof (cases a)
    case True
    with d2 have "assert_instrumentation ?d1 = Inr d2" by simp
    from assert_instrumentation_length[OF this] show ?thesis by simp
  next
    case False
    with d2 show ?thesis by auto
  qed
  have "ts = map (\<lambda>z. convert_to_tensor (the (snd z))) (zip xs ?ds)"
    by (rule set_shapes_Inr_conv[OF ts])
  also have "\<dots> = map (\<lambda>d. convert_to_tensor (the d)) (map snd (zip xs ?ds))"
    by (simp only: map_map o_def)
  also have "map snd (zip xs ?ds) = ?ds" using len by simp
  finally have dyd: "dydxs = map (\<lambda>d. convert_to_tensor (the d)) ?ds" using dy by simp
  show ?thesis
  proof (cases a)
    case False
    with d2 have d2': "d2 = ?d1" by simp
    have "dydxs = dydxs_plain g ys xs"
      unfolding dyd
    proof (rule nth_equalityI)
      show "length (map (\<lambda>d. convert_to_tensor (the d)) ?ds) = length (dydxs_plain g ys xs)"
        using len by (simp add: dydxs_plain_def)
    next
      fix i assume "i < length (map (\<lambda>d. convert_to_tensor (the d)) ?ds)"
      then have i: "i < length xs" using len by simp
      then show "map (\<lambda>d. convert_to_tensor (the d)) ?ds ! i = dydxs_plain g ys xs ! i"
        by (cases "?fp ! i")
           (simp_all add: d2' nth_fill_nones dydxs_plain_def densify_cases zeros_like_def)
    qed
    with False us show ?thesis by simp
  next
    case True
    with d2 have "assert_instrumentation ?d1 = Inr d2" by simp
    from assert_instrumentation_Inr[OF this] obtain deps where
      nn: "None \<notin> set ?d1" and deps: "control_dependencies ?d1 = Inr deps" and
      d2': "d2 = map (\<lambda>d. Some (Dense (IdentityN False deps (convert_to_tensor (the d))))) ?d1"
      by blast
    have nn': "None \<notin> set ?fp"
    proof
      assume "None \<in> set ?fp"
      then have "densify None \<in> set ?d1" by (simp only: set_map) (rule imageI)
      with nn show False by simp
    qed
    have "dydxs = map (IdentityN False deps) (dydxs_plain g ys xs)"
      unfolding dyd
    proof (rule nth_equalityI)
      show "length (map (\<lambda>d. convert_to_tensor (the d)) ?ds)
          = length (map (IdentityN False deps) (dydxs_plain g ys xs))"
        using len by (simp add: dydxs_plain_def)
    next
      fix i assume "i < length (map (\<lambda>d. convert_to_tensor (the d)) ?ds)"
      then have i: "i < length xs" using len by simp
      with nn' obtain gr where "?fp ! i = Some gr"
        by (cases "?fp ! i") (auto simp: in_set_conv_nth)
      with i show "map (\<lambda>d. convert_to_tensor (the d)) ?ds ! i
          = map (IdentityN False deps) (dydxs_plain g ys xs) ! i"
        by (simp add: d2' nth_fill_nones dydxs_plain_def densify_cases)
    qed
    with True us nn' deps show ?thesis by auto
  qed
qed

lemma gradients_Inl: "gradients ys xs gs = Inl e \<Longrightarrow> e = ValueError"
  by (auto simp: gradients_def Let_def split: if_splits)

lemma gradients_Inr_iff:
  "(\<exists>r. gradients ys xs gs = Inr r)
     \<longleftrightarrow> (case gs of None \<Rightarrow> True | Some s \<Rightarrow> length s = length ys)"
  by (cases gs) (auto simp: gradients_def default_grad_ys_def)

lemma fwd_gradients_Inl:
  assumes "fwd_gradients g ys xs grad_xs a = Inl e"
  shows "e = ValueError \<or> (e = TypeError \<and> a \<and> None \<in> set (first_pass g ys xs))"
proof (cases "fwd_intermediate g ys xs a")
  case (Inl e')
  with assms have "e' = e" by (simp add: fwd_gradients_def)
  with fwd_intermediate_Inl[OF Inl] show ?thesis by simp
next
  case (Inr p)
  obtain us dydxs where p: "p = (us, dydxs)" by (cases p)
  with assms Inr have "gradients dydxs us grad_xs = Inl e"
    by (cases "gradients dydxs us grad_xs") (simp_all add: fwd_gradients_def)
  from gradients_Inl[OF this] show ?thesis by simp
qed

lemma length_dydxs_plain [simp]: "length (dydxs_plain g ys xs) = length xs"
  by (simp add: dydxs_plain_def)

lemma fwd_intermediate_succeeds:
  assumes "list_all well_shaped ys" and "a \<longrightarrow> None \<notin> set (first_pass g ys xs)"
  shows "\<exists>dydxs. fwd_intermediate g ys xs a = Inr (dual_placeholders g ys, dydxs)
            \<and> length dydxs = length xs"
proof (cases a)
  case True
  with assms(2) fwd_intermediate_True[OF assms(1)] obtain deps where
    "fwd_intermediate g ys xs True
      = Inr (dual_placeholders g ys, map (IdentityN False deps) (dydxs_plain g ys xs))"
    by blast
  with True show ?thesis by simp
next
  case False
  with fwd_intermediate_False[OF assms(1)] show ?thesis by simp
qed

lemma fwd_gradients_succeeds:
  assumes "list_all well_shaped ys" and "a \<longrightarrow> None \<notin> set (first_pass g ys xs)"
    and "case grad_xs of None \<Rightarrow> True | Some s \<Rightarrow> length s = length xs"
  shows "\<exists>dysdx g'. fwd_gradients g ys xs grad_xs a = Inr (dysdx, g')"
proof -
  from fwd_intermediate_succeeds[OF assms(1,2)] obtain dydxs where
    fi: "fwd_intermediate g ys xs a = Inr (dual_placeholders g ys, dydxs)" and
    len: "length dydxs = length xs"
    by blast
  from assms(3) len have "case grad_xs of None \<Rightarrow> True | Some s \<Rightarrow> length s = length dydxs"
    by (cases grad_xs) simp_all
  then obtain r where "gradients dydxs (dual_placeholders g ys) grad_xs = Inr r"
    using gradients_Inr_iff[of dydxs "dual_placeholders g ys" grad_xs] by blast
  with fi show ?thesis by (simp add: fwd_gradients_def)
qed

subsection \<open>Linearity in the seed\<close>

lemma scaled_simps [simp]:
  "scaled c (Inl e) = Inl e" "scaled c (Inr v) = Inr (map (fmul (Num c)) v)"
  by (simp_all add: scaled_def)












lemma backprop_self [simp]: "backprop x x s = Some (Dense s)"
  by (cases x) simp_all






subsection \<open>The product of two scalars\<close>

lemmas fwd_defs = fwd_gradients_def fwd_intermediate_def gradients_def dual_placeholders_def
  default_grad_ys_def fill_nones_def zeros_like_def add_scalar_def assert_instrumentation_def
  Let_def

text \<open>
  Claim C2. For \<open>y = x1 * x2\<close> with scalar placeholders fed \<open>a\<close> and \<open>b\<close>, the call with seed
  \<open>[1, 0]\<close> returns one tensor, which evaluates to \<open>b\<close>, and the call with seed \<open>[0, 1]\<close>
  returns one tensor, which evaluates to \<open>a\<close>.
\<close>

theorem product_rule:
  assumes "n1 \<noteq> n2" and "env n1 = [a]" and "env n2 = [b]"
  shows "(\<exists>r g'. fwd_gradients g [Mul (Placeholder n1 []) (Placeholder n2 [])]
              [Placeholder n1 [], Placeholder n2 []]
              (Some [Const (Num 1) [], Const (Num 0) []]) au = Inr ([Some (Dense r)], g')
            \<and> eval env r = Inr [Num b])
       \<and> (\<exists>r g'. fwd_gradients g [Mul (Placeholder n1 []) (Placeholder n2 [])]
              [Placeholder n1 [], Placeholder n2 []]
              (Some [Const (Num 0) [], Const (Num 1) []]) au = Inr ([Some (Dense r)], g')
            \<and> eval env r = Inr [Num a])"
  using assms by (cases au) (simp_all add: fwd_defs upt_rec)

theorem product_rule_witness:
  "(0::nat) \<noteq> 1
   \<and> (\<exists>r g'. fwd_gradients \<lparr>op_count = 2\<rparr> [Mul (Placeholder 0 []) (Placeholder 1 [])]
              [Placeholder 0 [], Placeholder 1 []]
              (Some [Const (Num 1) [], Const (Num 0) []]) False = Inr ([Some (Dense r)], g')
            \<and> eval (\<lambda>n. if n = 0 then [5] else [7]) r = Inr [Num 7])
   \<and> (\<exists>r g'. fwd_gradients \<lparr>op_count = 2\<rparr> [Mul (Placeholder 0 []) (Placeholder 1 [])]
              [Placeholder 0 [], Placeholder 1 []]
              (Some [Const (Num 0) [], Const (Num 1) []]) False = Inr ([Some (Dense r)], g')
            \<and> eval (\<lambda>n. if n = 0 then [5] else [7]) r = Inr [Num 5])"
  using product_rule [of 0 1 "\<lambda>n. if n = 0 then [5] else [7]" 5 7 "\<lparr>op_count = 2\<rparr>" False]
  by simp

subsection \<open>Length and shapes of the result\<close>

lemma add_grads_well_shaped:
  assumes "\<And>a. ga = Some a \<Longrightarrow> well_shaped (convert_to_tensor a) \<and> shape_of (convert_to_tensor a) = sh"
    and "\<And>b. gb = Some b \<Longrightarrow> well_shaped (convert_to_tensor b) \<and> shape_of (convert_to_tensor b) = sh"
    and "add_grads ga gb = Some r"
  shows "well_shaped (convert_to_tensor r) \<and> shape_of (convert_to_tensor r) = sh"
  using assms by (cases ga; cases gb) auto

lemma backprop_well_shaped:
  "well_shaped y \<Longrightarrow> well_shaped s \<Longrightarrow> shape_of s = shape_of y \<Longrightarrow> backprop y x s = Some r
     \<Longrightarrow> well_shaped (convert_to_tensor r) \<and> shape_of (convert_to_tensor r) = shape_of x"
proof (induction y x s arbitrary: r rule: backprop.induct)
  case (5 a b x s)
  show ?case
  proof (cases "Add a b = x")
    case True with 5(3-6) show ?thesis by auto
  next
    case False
    with 5 have r: "add_grads (backprop a x s) (backprop b x s) = Some r" by simp
    show ?thesis
      by (rule add_grads_well_shaped[OF _ _ r]) (use 5 False in auto)
  qed
next
  case (6 a b x s)
  show ?case
  proof (cases "Mul a b = x")
    case True with 6(3-6) show ?thesis by auto
  next
    case False
    with 6 have r: "add_grads (backprop a x (Mul s b)) (backprop b x (Mul s a)) = Some r" by simp
    show ?thesis
      by (rule add_grads_well_shaped[OF _ _ r]) (use 6 False in auto)
  qed
next
  case (7 p idx x s)
  show ?case
  proof (cases "Gather p idx = x")
    case True with 7(2-5) show ?thesis by auto
  next
    case False
    note nx = this
    show ?thesis
    proof (cases "p = x")
      case True
      with nx 7(2-5) show ?thesis by (auto simp: hd_Cons_tl)
    next
      case False
      with nx 7(5) have r: "backprop p x (UnsortedSegmentSum s idx (hd (shape_of p))) = Some r"
        by simp
      show ?thesis
        by (rule 7(1)[OF nx False _ _ _ r]) (use 7(2-4) in \<open>auto simp: hd_Cons_tl\<close>)
    qed
  qed
next
  case (8 v idx n x s)
  show ?case
  proof (cases "UnsortedSegmentSum v idx n = x")
    case True with 8(2-5) show ?thesis by auto
  next
    case False
    with 8(5) have r: "backprop v x (Gather s idx) = Some r" by simp
    have "length idx # tl (shape_of v) = shape_of v"
      using 8(2) by (cases "shape_of v") auto
    then show ?thesis
      by (intro 8(1)[OF False _ _ _ r]) (use 8(2-4) in auto)
  qed
qed (auto split: if_splits)

lemma foldl_add_grads_well_shaped:
  assumes "\<forall>(y, s) \<in> set zs. well_shaped y \<and> well_shaped s \<and> shape_of s = shape_of y"
    and "\<And>a. acc = Some a \<Longrightarrow>
           well_shaped (convert_to_tensor a) \<and> shape_of (convert_to_tensor a) = shape_of x"
    and "foldl add_grads acc (map (\<lambda>(y, s). backprop y x s) zs) = Some r"
  shows "well_shaped (convert_to_tensor r) \<and> shape_of (convert_to_tensor r) = shape_of x"
  using assms
proof (induction zs arbitrary: acc)
  case Nil
  then show ?case by simp
next
  case (Cons z zs)
  obtain y s where z: "z = (y, s)" by (cases z)
  have step: "\<And>a. add_grads acc (backprop y x s) = Some a
      \<Longrightarrow> well_shaped (convert_to_tensor a) \<and> shape_of (convert_to_tensor a) = shape_of x"
  proof -
    fix a assume a: "add_grads acc (backprop y x s) = Some a"
    show "well_shaped (convert_to_tensor a) \<and> shape_of (convert_to_tensor a) = shape_of x"
      by (rule add_grads_well_shaped[OF _ _ a])
         (use Cons.prems z backprop_well_shaped in auto)
  qed
  show ?case
    by (rule Cons.IH[of "add_grads acc (backprop y x s)"])
       (use Cons.prems z step in auto)
qed

lemma first_pass_well_shaped:
  assumes "list_all well_shaped ys" and "i < length xs" and "first_pass g ys xs ! i = Some d"
  shows "well_shaped (convert_to_tensor d)"
proof -
  have seeds: "\<forall>(y, s) \<in> set (zip ys (dual_placeholders g ys)).
      well_shaped y \<and> well_shaped s \<and> shape_of s = shape_of y"
  proof -
    { fix y s assume "(y, s) \<in> set (zip ys (dual_placeholders g ys))"
      then obtain k where k: "k < length ys" "y = ys ! k" "s = dual_placeholders g ys ! k"
        by (auto simp: set_zip)
      then have "well_shaped y \<and> well_shaped s \<and> shape_of s = shape_of y"
        using assms(1) by (simp add: nth_dual_placeholders list_all_length) }
    then show ?thesis by auto
  qed
  have "foldl add_grads None
      (map (\<lambda>(y, s). backprop y (xs ! i) s) (zip ys (dual_placeholders g ys))) = Some d"
    using assms(2,3) by (simp add: first_pass_def)
  from foldl_add_grads_well_shaped[OF seeds _ this] show ?thesis by simp
qed

lemma dydxs_plain_well_shaped:
  assumes "list_all well_shaped ys" and "list_all well_shaped xs" and "i < length xs"
  shows "well_shaped (dydxs_plain g ys xs ! i)"
proof (cases "first_pass g ys xs ! i")
  case None
  with assms show ?thesis by (simp add: dydxs_plain_def list_all_length)
next
  case (Some d)
  with first_pass_well_shaped[OF assms(1,3) Some] assms(3) show ?thesis
    by (simp add: dydxs_plain_def)
qed

lemma gradients_None:
  "gradients ys xs None = gradients ys xs (Some (default_grad_ys ys))"
  by (simp add: gradients_def)

lemma fwd_gradients_Inr:
  assumes "fwd_gradients g ys xs grad_xs a = Inr (dysdx, g')"
  shows "\<exists>dydxs. fwd_intermediate g ys xs a = Inr (dual_placeholders g ys, dydxs)
           \<and> gradients dydxs (dual_placeholders g ys) grad_xs = Inr dysdx
           \<and> g' = g\<lparr>op_count := op_count g + length ys + length xs\<rparr>"
proof (cases "fwd_intermediate g ys xs a")
  case (Inl e)
  with assms show ?thesis by (simp add: fwd_gradients_def)
next
  case (Inr p)
  obtain us dydxs where p: "p = (us, dydxs)" by (cases p)
  from fwd_intermediate_shapes[OF Inr[unfolded p]] have us: "us = dual_placeholders g ys"
    by simp
  from assms Inr p us show ?thesis
    by (cases "gradients dydxs us grad_xs") (auto simp: fwd_gradients_def)
qed

lemma result_length: 
  assumes "fwd_gradients g ys xs grad_xs a = Inr (dysdx, g')"
  shows "length dysdx = length ys"
proof -
  from fwd_gradients_Inr[OF assms] obtain dydxs where
    "gradients dydxs (dual_placeholders g ys) grad_xs = Inr dysdx" by blast
  from gradients_length[OF this] show ?thesis by simp
qed

lemma result_shapes:
  assumes r: "fwd_gradients g ys xs grad_xs a = Inr (dysdx, g')"
    and ys: "list_all well_shaped ys" and xs: "list_all well_shaped xs"
    and seeds: "case grad_xs of None \<Rightarrow> True | Some gs \<Rightarrow> map shape_of gs = map shape_of xs"
    and i: "i < length ys" and d: "dysdx ! i = Some d"
  shows "shape_of (convert_to_tensor d) = shape_of (ys ! i)"
proof -
  let ?us = "dual_placeholders g ys"
  from fwd_gradients_Inr[OF r] obtain dydxs where
    fi: "fwd_intermediate g ys xs a = Inr (?us, dydxs)" and
    gr: "gradients dydxs ?us grad_xs = Inr dysdx"
    by blast
  from fwd_intermediate_shapes[OF fi] have sh: "map shape_of dydxs = map shape_of xs" by simp
  then have len: "length dydxs = length xs" by (metis length_map)
  from fwd_intermediate_Inr[OF fi] obtain deps where
    dy: "dydxs = map (if a then IdentityN False deps else id) (dydxs_plain g ys xs)"
    by blast
  have ws: "well_shaped (dydxs ! k)" if "k < length xs" for k
    using dydxs_plain_well_shaped[OF ys xs that] that by (simp add: dy)
  define ss where "ss = (case grad_xs of None \<Rightarrow> default_grad_ys dydxs | Some gs \<Rightarrow> gs)"
  have gr': "gradients dydxs ?us (Some ss) = Inr dysdx"
    using gr by (cases grad_xs) (simp_all add: ss_def gradients_None)
  have ssh: "map shape_of ss = map shape_of dydxs"
    using seeds sh by (cases grad_xs) (simp_all add: ss_def default_grad_ys_def o_def)
  then have lss: "length ss = length dydxs" by (metis length_map)
  have "\<forall>(y, s) \<in> set (zip dydxs ss). well_shaped y \<and> shape_of s = shape_of y"
  proof -
    { fix y s assume "(y, s) \<in> set (zip dydxs ss)"
      then obtain k where k: "k < length dydxs" "y = dydxs ! k" "s = ss ! k"
        using lss by (auto simp: set_zip)
      have "shape_of (ss ! k) = shape_of (dydxs ! k)"
        using k(1) lss ssh by (metis nth_map)
      with k ws len have "well_shaped y \<and> shape_of s = shape_of y" by simp }
    then show ?thesis by auto
  qed
  from gradients_shape[OF gr' this _ d] i
  show ?thesis by (simp add: nth_dual_placeholders)
qed

text \<open>
  Claim C1. A call that returns gives one entry per \<open>y\<close>, and for well-shaped \<open>ys\<close> and \<open>xs\<close>
  and seeds shaped like the \<open>xs\<close> every entry that is a tensor has the shape of its \<open>y\<close>.
  Not every entry is a tensor: for \<open>ys = [x0 * x1, z]\<close> and \<open>xs = [x0, x1]\<close> the entry of
  \<open>z\<close>, which no \<open>x\<close> influences, is \<open>None\<close> and so has no shape.
\<close>

theorem result_length_and_shapes:
  "(fwd_gradients g ys xs grad_xs a = Inr (dysdx, g') \<longrightarrow>
      length dysdx = length ys
      \<and> (list_all well_shaped ys \<longrightarrow> list_all well_shaped xs
           \<longrightarrow> (case grad_xs of None \<Rightarrow> True
                | Some gs \<Rightarrow> map shape_of gs = map shape_of xs)
           \<longrightarrow> (\<forall>i<length ys. \<forall>d. dysdx ! i = Some d
                  \<longrightarrow> shape_of (convert_to_tensor d) = shape_of (ys ! i))))
   \<and> fwd_gradients \<lparr>op_count = 3\<rparr>
         [Mul (Placeholder 0 []) (Placeholder 1 []), Placeholder 2 []]
         [Placeholder 0 [], Placeholder 1 []] None False
       = Inr ([Some (Dense (Add (Mul (Const (Num 1) []) (Placeholder 1 []))
                               (Mul (Const (Num 1) []) (Placeholder 0 [])))),
               None], \<lparr>op_count = 7\<rparr>)"
proof (intro conjI impI allI)
  assume "fwd_gradients g ys xs grad_xs a = Inr (dysdx, g')"
  then show "length dysdx = length ys" by (rule result_length)
next
  fix i d
  assume "fwd_gradients g ys xs grad_xs a = Inr (dysdx, g')"
    "list_all well_shaped ys" "list_all well_shaped xs"
    "case grad_xs of None \<Rightarrow> True | Some gs \<Rightarrow> map shape_of gs = map shape_of xs"
    "i < length ys" "dysdx ! i = Some d"
  then show "shape_of (convert_to_tensor d) = shape_of (ys ! i)" by (rule result_shapes)
next
  show "fwd_gradients \<lparr>op_count = 3\<rparr>
         [Mul (Placeholder 0 []) (Placeholder 1 []), Placeholder 2 []]
         [Placeholder 0 [], Placeholder 1 []] None False
       = Inr ([Some (Dense (Add (Mul (Const (Num 1) []) (Placeholder 1 []))
                               (Mul (Const (Num 1) []) (Placeholder 0 [])))),
               None], \<lparr>op_count = 7\<rparr>)"
    by code_simp
qed

theorem result_length_and_shapes_witness:
  "fwd_gradients \<lparr>op_count = 1\<rparr> [Gather (Placeholder 0 [3]) [0, 1]] [Placeholder 0 [3]]
       (Some [Const (Num 1) [3]]) True
     = Inr ([Some (Dense (Gather (Const (Num 1) [3]) [0, 1]))], \<lparr>op_count = 3\<rparr>)
   \<and> list_all well_shaped [Gather (Placeholder 0 [3]) [0, 1]]
   \<and> list_all well_shaped [Placeholder 0 [3]]
   \<and> map shape_of [Const (Num 1) [3]] = map shape_of [Placeholder 0 [3]]
   \<and> length [Some (Dense (Gather (Const (Num 1) [3]) [0, 1]))]
        = length [Gather (Placeholder 0 [3]) [0, 1]]
   \<and> shape_of (convert_to_tensor (Dense (Gather (Const (Num 1) [3]) [0, 1])))
        = shape_of ([Gather (Placeholder 0 [3]) [0, 1]] ! 0)"
proof -
  have r: "fwd_gradients \<lparr>op_count = 1\<rparr> [Gather (Placeholder 0 [3]) [0, 1]] [Placeholder 0 [3]]
       (Some [Const (Num 1) [3]]) True
     = Inr ([Some (Dense (Gather (Const (Num 1) [3]) [0, 1]))], \<lparr>op_count = 3\<rparr>)"
    by code_simp
  have ws: "list_all well_shaped [Gather (Placeholder 0 [3]) [0, 1]]"
    "list_all well_shaped [Placeholder 0 [3]]"
    "map shape_of [Const (Num 1) [3]] = map shape_of [Placeholder 0 [3]]"
    by simp_all
  from result_length_and_shapes
    [of "\<lparr>op_count = 1\<rparr>" "[Gather (Placeholder 0 [3]) [0, 1]]" "[Placeholder 0 [3]]"
        "Some [Const (Num 1) [3]]" True "[Some (Dense (Gather (Const (Num 1) [3]) [0, 1]))]"
        "\<lparr>op_count = 3\<rparr>"] r ws
  have "length [Some (Dense (Gather (Const (Num 1) [3]) [0, 1]))]
        = length [Gather (Placeholder 0 [3]) [0, 1]]
     \<and> shape_of (convert_to_tensor (Dense (Gather (Const (Num 1) [3]) [0, 1])))
        = shape_of ([Gather (Placeholder 0 [3]) [0, 1]] ! 0)"
    by simp
  with r ws show ?thesis by blast
qed

subsection \<open>An input that influences no output\<close>

lemma length_drop_nth [simp]: "i < length xs \<Longrightarrow> length (drop_nth i xs) = length xs - 1"
  by (auto simp: drop_nth_def)

lemma nth_drop_nth:
  "i < length xs \<Longrightarrow> j < length xs - 1 \<Longrightarrow>
     drop_nth i xs ! j = (if j < i then xs ! j else xs ! Suc j)"
  by (auto simp: drop_nth_def nth_append min_def)

lemma map_drop_nth: "map f (drop_nth i xs) = drop_nth i (map f xs)"
  by (simp add: drop_nth_def take_map drop_map)

lemma add_grads_None_right [simp]: "add_grads acc None = acc"
  by (cases acc) simp_all

lemma foldl_add_grads_drop_nth:
  assumes "i < length cs" and "cs ! i = None"
  shows "foldl add_grads acc (drop_nth i cs) = foldl add_grads acc cs"
proof -
  have "cs = take i cs @ None # drop (Suc i) cs"
    using id_take_nth_drop[OF assms(1)] assms(2) by simp
  then have "foldl add_grads acc cs
      = foldl add_grads acc (take i cs @ None # drop (Suc i) cs)" by simp
  also have "\<dots> = foldl add_grads acc (drop_nth i cs)"
    by (simp add: drop_nth_def)
  finally show ?thesis by simp
qed

lemma first_pass_drop_nth:
  "first_pass g ys (drop_nth i xs) = drop_nth i (first_pass g ys xs)"
  by (simp add: first_pass_def map_drop_nth)

lemma backprop_ZerosLike_dual:
  "k < length ys \<Longrightarrow> backprop (ZerosLike n x) (dual_placeholders g ys ! k) s = None"
  by (simp add: nth_dual_placeholders)

text \<open>What one entry of \<open>dydxs\<close> contributes to the second pass does not depend on the
  name of a zero fill.\<close>

lemma contribution_drop_nth:
  assumes i: "i < length xs" and j: "j < length xs - 1" and k: "k < length ys"
  shows "backprop (dydxs_plain g ys (drop_nth i xs) ! j) (dual_placeholders g ys ! k) s
       = backprop (dydxs_plain g ys xs ! (if j < i then j else Suc j))
           (dual_placeholders g ys ! k) s"
proof -
  let ?j' = "if j < i then j else Suc j"
  have j': "?j' < length xs" using j by auto
  have x: "drop_nth i xs ! j = xs ! ?j'" using nth_drop_nth[OF i j] by simp
  have "first_pass g ys (drop_nth i xs) ! j = first_pass g ys xs ! ?j'"
    using nth_drop_nth[of i "first_pass g ys xs" j] i j by (simp add: first_pass_drop_nth)
  then show ?thesis
    using i j j' x k
    by (cases "first_pass g ys xs ! ?j'")
       (simp_all add: dydxs_plain_def backprop_ZerosLike_dual del: backprop.simps)
qed

lemma shape_dydxs_plain_drop_nth:
  assumes i: "i < length xs" and j: "j < length xs - 1"
  shows "shape_of (dydxs_plain g ys (drop_nth i xs) ! j)
       = shape_of (dydxs_plain g ys xs ! (if j < i then j else Suc j))"
proof -
  let ?j' = "if j < i then j else Suc j"
  have j': "?j' < length xs" using j by auto
  have x: "drop_nth i xs ! j = xs ! ?j'" using nth_drop_nth[OF i j] by simp
  have "first_pass g ys (drop_nth i xs) ! j = first_pass g ys xs ! ?j'"
    using nth_drop_nth[of i "first_pass g ys xs" j] i j by (simp add: first_pass_drop_nth)
  then show ?thesis
    using i j j' x
    by (cases "first_pass g ys xs ! ?j'") (simp_all add: dydxs_plain_def)
qed

lemma second_pass_drop_nth:
  assumes i: "i < length xs" and none: "first_pass g ys xs ! i = None"
    and k: "k < length ys"
    and ss: "length ss = length xs" and ss': "length ss' = length xs - 1"
    and rel: "\<forall>j<length xs - 1. ss' ! j = ss ! (if j < i then j else Suc j)"
  shows "foldl add_grads None
           (map2 (\<lambda>d s. backprop d (dual_placeholders g ys ! k) s)
              (dydxs_plain g ys (drop_nth i xs)) ss')
       = foldl add_grads None
           (map2 (\<lambda>d s. backprop d (dual_placeholders g ys ! k) s)
              (dydxs_plain g ys xs) ss)"
proof -
  let ?u = "dual_placeholders g ys ! k"
  let ?cs = "map2 (\<lambda>d s. backprop d ?u s) (dydxs_plain g ys xs) ss"
  let ?cs' = "map2 (\<lambda>d s. backprop d ?u s) (dydxs_plain g ys (drop_nth i xs)) ss'"
  have lcs: "length ?cs = length xs" using ss by simp
  have lcs': "length ?cs' = length xs - 1" using ss' i by simp
  have ci: "?cs ! i = None"
    using i ss none k by (simp add: dydxs_plain_def backprop_ZerosLike_dual del: backprop.simps)
  have "?cs' = drop_nth i ?cs"
  proof (rule nth_equalityI)
    show "length ?cs' = length (drop_nth i ?cs)" using lcs lcs' i by simp
  next
    fix j assume "j < length ?cs'"
    then have j: "j < length xs - 1" by (simp only: lcs')
    let ?j' = "if j < i then j else Suc j"
    have j': "?j' < length xs" using j by auto
    have "?cs' ! j = backprop (dydxs_plain g ys (drop_nth i xs) ! j) ?u (ss' ! j)"
      using j ss' i by simp
    also have "\<dots> = backprop (dydxs_plain g ys xs ! ?j') ?u (ss ! ?j')"
      using contribution_drop_nth[OF i j k] rel j by simp
    also have "\<dots> = ?cs ! ?j'" using j' ss by simp
    also have "\<dots> = drop_nth i ?cs ! j"
      using nth_drop_nth[of i ?cs j] i j lcs by simp
    finally show "?cs' ! j = drop_nth i ?cs ! j" .
  qed
  with foldl_add_grads_drop_nth[of i ?cs None] i lcs ci show ?thesis by simp
qed

lemma unused_x_can_be_dropped:
  assumes ws: "list_all well_shaped ys" and i: "i < length xs"
    and none: "first_pass g ys xs ! i = None"
    and seeds: "case grad_xs of None \<Rightarrow> True | Some gs \<Rightarrow> length gs = length xs"
  shows "\<exists>dysdx g1 g2.
      fwd_gradients g ys xs grad_xs False = Inr (dysdx, g1)
    \<and> fwd_gradients g ys (drop_nth i xs) (map_option (drop_nth i) grad_xs) False
        = Inr (dysdx, g2)"
proof -
  let ?us = "dual_placeholders g ys"
  let ?ds = "dydxs_plain g ys xs"
  let ?xs' = "drop_nth i xs"
  let ?ds' = "dydxs_plain g ys ?xs'"
  define ss where "ss = (case grad_xs of None \<Rightarrow> default_grad_ys ?ds | Some gs \<Rightarrow> gs)"
  define ss' where "ss' = (case grad_xs of None \<Rightarrow> default_grad_ys ?ds'
                           | Some gs \<Rightarrow> drop_nth i gs)"
  have lss: "length ss = length xs"
    using seeds by (cases grad_xs) (simp_all add: ss_def default_grad_ys_def)
  have lss': "length ss' = length xs - 1"
    using seeds i by (cases grad_xs) (simp_all add: ss'_def default_grad_ys_def)
  have rel: "\<forall>j<length xs - 1. ss' ! j = ss ! (if j < i then j else Suc j)"
  proof (intro allI impI)
    fix j assume j: "j < length xs - 1"
    then have j': "(if j < i then j else Suc j) < length xs" by auto
    show "ss' ! j = ss ! (if j < i then j else Suc j)"
    proof (cases grad_xs)
      case None
      with i j j' shape_dydxs_plain_drop_nth[OF i j, of g ys] show ?thesis
        by (simp add: ss_def ss'_def default_grad_ys_def)
    next
      case (Some gs)
      with seeds i j nth_drop_nth[of i gs j] show ?thesis
        by (simp add: ss_def ss'_def)
    qed
  qed
  have g1: "gradients ?ds ?us grad_xs = gradients ?ds ?us (Some ss)"
    by (cases grad_xs) (simp_all add: ss_def gradients_None)
  have g2: "gradients ?ds' ?us (map_option (drop_nth i) grad_xs) = gradients ?ds' ?us (Some ss')"
    by (cases grad_xs) (simp_all add: ss'_def gradients_None)
  have "map (\<lambda>u. foldl add_grads None (map2 (\<lambda>d s. backprop d u s) ?ds' ss')) ?us
      = map (\<lambda>u. foldl add_grads None (map2 (\<lambda>d s. backprop d u s) ?ds ss)) ?us"
  proof (rule nth_equalityI)
    show "length (map (\<lambda>u. foldl add_grads None (map2 (\<lambda>d s. backprop d u s) ?ds' ss')) ?us)
        = length (map (\<lambda>u. foldl add_grads None (map2 (\<lambda>d s. backprop d u s) ?ds ss)) ?us)"
      by simp
  next
    fix k
    assume "k < length (map (\<lambda>u. foldl add_grads None
               (map2 (\<lambda>d s. backprop d u s) ?ds' ss')) ?us)"
    then have k: "k < length ys" by simp
    from second_pass_drop_nth[OF i none k lss lss' rel] k
    show "map (\<lambda>u. foldl add_grads None (map2 (\<lambda>d s. backprop d u s) ?ds' ss')) ?us ! k
        = map (\<lambda>u. foldl add_grads None (map2 (\<lambda>d s. backprop d u s) ?ds ss)) ?us ! k"
      by simp
  qed
  then have "gradients ?ds' ?us (Some ss') = gradients ?ds ?us (Some ss)"
    using lss lss' i by (simp add: gradients_def)
  moreover have "\<exists>r. gradients ?ds ?us (Some ss) = Inr r"
    using lss by (simp add: gradients_def)
  ultimately obtain r where
    "gradients ?ds ?us grad_xs = Inr r"
    "gradients ?ds' ?us (map_option (drop_nth i) grad_xs) = Inr r"
    using g1 g2 by auto
  then show ?thesis
    by (simp add: fwd_gradients_def fwd_intermediate_False[OF ws])
qed

text \<open>
  Claim C5. Let \<open>x\<close>, at position \<open>i\<close> of \<open>xs\<close>, influence no \<open>y\<close>: the first pass returns
  \<open>None\<close> for it. Without \<open>assert_unused\<close> the call returns for well-shaped \<open>ys\<close> and a seed
  list of the right length; the entry of \<open>x\<close> that reaches the second pass is zeros shaped
  like \<open>x\<close>, at position \<open>i\<close>; and the result is the one the call gives with \<open>x\<close> and its seed
  left out. With \<open>assert_unused\<close> the call does not return: it fails with \<open>TypeError\<close>.
\<close>

theorem independent_x_is_zero_filled:
  "(list_all well_shaped ys \<longrightarrow> i < length xs \<longrightarrow> first_pass g ys xs ! i = None
      \<longrightarrow> (case grad_xs of None \<Rightarrow> True | Some gs \<Rightarrow> length gs = length xs)
      \<longrightarrow> (\<exists>dydxs. fwd_intermediate g ys xs False = Inr (dual_placeholders g ys, dydxs)
               \<and> dydxs ! i = ZerosLike (op_count g + length ys + i) (xs ! i)
               \<and> shape_of (dydxs ! i) = shape_of (xs ! i))
        \<and> (\<exists>dysdx g1 g2.
               fwd_gradients g ys xs grad_xs False = Inr (dysdx, g1)
             \<and> fwd_gradients g ys (drop_nth i xs) (map_option (drop_nth i) grad_xs) False
                 = Inr (dysdx, g2)))
   \<and> (None \<in> set (first_pass g ys xs)
        \<longrightarrow> fwd_gradients g ys xs grad_xs True = Inl TypeError)"
proof (intro conjI impI)
  assume ws: "list_all well_shaped ys" and i: "i < length xs"
    and none: "first_pass g ys xs ! i = None"
  have "fwd_intermediate g ys xs False = Inr (dual_placeholders g ys, dydxs_plain g ys xs)"
    by (rule fwd_intermediate_False[OF ws])
  moreover have "dydxs_plain g ys xs ! i = ZerosLike (op_count g + length ys + i) (xs ! i)"
    using i none by (simp add: dydxs_plain_def)
  ultimately show "\<exists>dydxs. fwd_intermediate g ys xs False = Inr (dual_placeholders g ys, dydxs)
               \<and> dydxs ! i = ZerosLike (op_count g + length ys + i) (xs ! i)
               \<and> shape_of (dydxs ! i) = shape_of (xs ! i)"
    by simp
next
  assume "list_all well_shaped ys" "i < length xs" "first_pass g ys xs ! i = None"
    "case grad_xs of None \<Rightarrow> True | Some gs \<Rightarrow> length gs = length xs"
  then show "\<exists>dysdx g1 g2.
               fwd_gradients g ys xs grad_xs False = Inr (dysdx, g1)
             \<and> fwd_gradients g ys (drop_nth i xs) (map_option (drop_nth i) grad_xs) False
                 = Inr (dysdx, g2)"
    by (rule unused_x_can_be_dropped)
next
  assume "None \<in> set (first_pass g ys xs)"
  then show "fwd_gradients g ys xs grad_xs True = Inl TypeError"
    by (simp add: fwd_gradients_def fwd_intermediate_True_None)
qed

theorem independent_x_is_zero_filled_witness:
  "list_all well_shaped [Placeholder 0 []]
   \<and> first_pass \<lparr>op_count = 2\<rparr> [Placeholder 0 []] [Placeholder 0 [], Placeholder 1 []] ! 1 = None
   \<and> (\<exists>dysdx g1 g2.
         fwd_gradients \<lparr>op_count = 2\<rparr> [Placeholder 0 []] [Placeholder 0 [], Placeholder 1 []]
            None False = Inr (dysdx, g1)
       \<and> fwd_gradients \<lparr>op_count = 2\<rparr> [Placeholder 0 []]
            (drop_nth 1 [Placeholder 0 [], Placeholder 1 []]) (map_option (drop_nth 1) None) False
           = Inr (dysdx, g2))
   \<and> fwd_gradients \<lparr>op_count = 2\<rparr> [Placeholder 0 []] [Placeholder 0 [], Placeholder 1 []]
        None True = Inl TypeError"
proof -
  have ws: "list_all well_shaped [Placeholder 0 []]" by simp
  have fp: "first_pass \<lparr>op_count = 2\<rparr> [Placeholder 0 []] [Placeholder 0 [], Placeholder 1 []]
      = [Some (Dense (AddScalar (ZerosLike 2 (Placeholder 0 [])) NaN)), None]"
    by code_simp
  have none: "first_pass \<lparr>op_count = 2\<rparr> [Placeholder 0 []]
      [Placeholder 0 [], Placeholder 1 []] ! 1 = None"
    unfolding fp by simp
  have mem: "None \<in> set (first_pass \<lparr>op_count = 2\<rparr> [Placeholder 0 []]
      [Placeholder 0 [], Placeholder 1 []])"
    unfolding fp by simp
  have i: "1 < length [Placeholder 0 [], Placeholder 1 []]" by simp
  have sd: "case None :: tensor list option of None \<Rightarrow> True
      | Some gs \<Rightarrow> length gs = length [Placeholder 0 [], Placeholder 1 []]"
    by simp
  note t = independent_x_is_zero_filled
    [of "[Placeholder 0 []]" 1 "[Placeholder 0 [], Placeholder 1 []]" "\<lparr>op_count = 2\<rparr>" None]
  from t ws i none sd have
    "\<exists>dysdx g1 g2.
         fwd_gradients \<lparr>op_count = 2\<rparr> [Placeholder 0 []] [Placeholder 0 [], Placeholder 1 []]
            None False = Inr (dysdx, g1)
       \<and> fwd_gradients \<lparr>op_count = 2\<rparr> [Placeholder 0 []]
            (drop_nth 1 [Placeholder 0 [], Placeholder 1 []]) (map_option (drop_nth 1) None) False
           = Inr (dysdx, g2)"
    by blast
  moreover from t mem have
    "fwd_gradients \<lparr>op_count = 2\<rparr> [Placeholder 0 []] [Placeholder 0 [], Placeholder 1 []]
        None True = Inl TypeError"
    by blast
  ultimately show ?thesis using ws none by blast
qed

subsection \<open>The assertion mode\<close>

lemma control_dependencies_dense:
  assumes "None \<notin> set fp"
  shows "control_dependencies (map densify fp)
       = Inr (map (\<lambda>d. convert_to_tensor (the d)) fp)"
  using assms
proof (induction fp)
  case Nil
  then show ?case by simp
next
  case (Cons d ds)
  then obtain gr where "d = Some gr" by (cases d) auto
  with Cons show ?case by (cases gr) simp_all
qed

lemma dydxs_plain_no_None:
  assumes "None \<notin> set (first_pass g ys xs)"
  shows "dydxs_plain g ys xs = map (\<lambda>d. convert_to_tensor (the d)) (first_pass g ys xs)"
proof (rule nth_equalityI)
  show "length (dydxs_plain g ys xs)
      = length (map (\<lambda>d. convert_to_tensor (the d)) (first_pass g ys xs))"
    by simp
next
  fix i assume "i < length (dydxs_plain g ys xs)"
  then have i: "i < length xs" by simp
  with assms obtain gr where "first_pass g ys xs ! i = Some gr"
    by (cases "first_pass g ys xs ! i") (auto simp: in_set_conv_nth)
  with i show "dydxs_plain g ys xs ! i
      = map (\<lambda>d. convert_to_tensor (the d)) (first_pass g ys xs) ! i"
    by (simp add: dydxs_plain_def)
qed

lemma fwd_intermediate_True_deps:
  assumes "list_all well_shaped ys" and "None \<notin> set (first_pass g ys xs)"
  shows "fwd_intermediate g ys xs True
     = Inr (dual_placeholders g ys,
            map (IdentityN False (dydxs_plain g ys xs)) (dydxs_plain g ys xs))"
proof -
  obtain us dydxs where fi: "fwd_intermediate g ys xs True = Inr (us, dydxs)"
    using fwd_intermediate_True[OF assms] by blast
  from fwd_intermediate_Inr[OF fi] obtain deps where
    us: "us = dual_placeholders g ys" and
    deps: "control_dependencies (map densify (first_pass g ys xs)) = Inr deps" and
    dy: "dydxs = map (IdentityN False deps) (dydxs_plain g ys xs)"
    by auto
  from deps control_dependencies_dense[OF assms(2)] dydxs_plain_no_None[OF assms(2)]
  have "deps = dydxs_plain g ys xs" by simp
  with fi us dy show ?thesis by simp
qed

lemma dual_placeholder_not_IdentityN:
  "u \<in> set (dual_placeholders g ys) \<Longrightarrow> u \<noteq> IdentityN c deps t"
  by (auto simp: in_set_conv_nth nth_dual_placeholders)

lemma gradients_IdentityN:
  assumes "\<forall>u\<in>set us. \<forall>t. u \<noteq> IdentityN c deps t"
  shows "gradients (map (IdentityN c deps) ds) us grad_ys = gradients ds us grad_ys"
proof -
  have b1: "backprop (IdentityN c deps d) u s = backprop d u s" if "u \<in> set us" for u d s
  proof -
    from that assms have "IdentityN c deps d \<noteq> u" by blast
    then show ?thesis by simp
  qed
  have bp: "map2 (\<lambda>d s. backprop d u s) (map (IdentityN c deps) ds) ss
      = map2 (\<lambda>d s. backprop d u s) ds ss" if "u \<in> set us" for u ss
    by (simp add: zip_map1 split_def b1[OF that] del: backprop.simps)
  have "gradients (map (IdentityN c deps) ds) us (Some ss) = gradients ds us (Some ss)" for ss
    using bp by (simp add: gradients_def cong: map_cong)
  moreover have "default_grad_ys (map (IdentityN c deps) ds) = default_grad_ys ds"
    by (simp add: default_grad_ys_def)
  ultimately show ?thesis by (cases grad_ys) (simp_all add: gradients_None)
qed

lemma assert_unused_same_result:
  assumes "list_all well_shaped ys" and "None \<notin> set (first_pass g ys xs)"
  shows "fwd_gradients g ys xs grad_xs True = fwd_gradients g ys xs grad_xs False"
proof -
  have "gradients (map (IdentityN False (dydxs_plain g ys xs)) (dydxs_plain g ys xs))
          (dual_placeholders g ys) grad_xs
      = gradients (dydxs_plain g ys xs) (dual_placeholders g ys) grad_xs"
    by (rule gradients_IdentityN) (simp add: dual_placeholder_not_IdentityN)
  then show ?thesis
    by (simp add: fwd_gradients_def fwd_intermediate_True_deps[OF assms]
        fwd_intermediate_False[OF assms(1)])
qed

lemma eval_IdentityN_False:
  "\<exists>e. eval env (IdentityN False deps t) = Inl e"
  by (cases "first_error (map (eval env) deps)") simp_all

lemma first_error_None:
  "\<forall>r\<in>set rs. \<exists>v. r = Inr v \<Longrightarrow> first_error rs = None"
proof (induction rs)
  case Nil
  then show ?case by simp
next
  case (Cons r rs)
  then obtain v where "r = Inr v" by auto
  with Cons show ?case by simp
qed

lemma eval_IdentityN_AssertionFailed:
  assumes "\<forall>d\<in>set deps. \<exists>v. eval env d = Inr v"
  shows "eval env (IdentityN False deps t) = Inl AssertionFailed"
proof -
  have "first_error (map (eval env) deps) = None"
    by (rule first_error_None) (use assms in auto)
  then show ?thesis by simp
qed

text \<open>
  Claim C6. When every \<open>x\<close> influences some \<open>y\<close>, the call with \<open>assert_unused\<close> ends exactly
  as the call without it does: the same result nodes, hence the same values. Its
  intermediate \<open>dydxs\<close> cannot be evaluated: each entry fails, and with the injected
  assertion failure whenever the entries before the pass-through evaluate. When some \<open>x\<close>
  influences no \<open>y\<close> the two calls differ: for \<open>ys = [x0]\<close>, \<open>xs = [x0, x1]\<close> the call with
  \<open>assert_unused\<close> fails with \<open>TypeError\<close> and the call without it returns.
\<close>

theorem assert_unused_gates_the_intermediate:
  "(list_all well_shaped ys \<longrightarrow> None \<notin> set (first_pass g ys xs) \<longrightarrow>
      fwd_gradients g ys xs grad_xs True = fwd_gradients g ys xs grad_xs False
      \<and> (\<exists>dydxs. fwd_intermediate g ys xs True = Inr (dual_placeholders g ys, dydxs)
            \<and> length dydxs = length xs
            \<and> (\<forall>d\<in>set dydxs. \<exists>e. eval env d = Inl e)
            \<and> ((\<forall>t\<in>set (dydxs_plain g ys xs). \<exists>v. eval env t = Inr v)
                 \<longrightarrow> (\<forall>d\<in>set dydxs. eval env d = Inl AssertionFailed))))
   \<and> fwd_gradients \<lparr>op_count = 2\<rparr> [Placeholder 0 []] [Placeholder 0 [], Placeholder 1 []]
        None True = Inl TypeError
   \<and> fwd_gradients \<lparr>op_count = 2\<rparr> [Placeholder 0 []] [Placeholder 0 [], Placeholder 1 []]
        None False = Inr ([Some (Dense (Const (Num 1) []))], \<lparr>op_count = 5\<rparr>)"
proof (intro conjI impI)
  assume "list_all well_shaped ys" "None \<notin> set (first_pass g ys xs)"
  then show "fwd_gradients g ys xs grad_xs True = fwd_gradients g ys xs grad_xs False"
    by (rule assert_unused_same_result)
next
  assume ws: "list_all well_shaped ys" and nn: "None \<notin> set (first_pass g ys xs)"
  let ?ds = "map (IdentityN False (dydxs_plain g ys xs)) (dydxs_plain g ys xs)"
  have fi: "fwd_intermediate g ys xs True = Inr (dual_placeholders g ys, ?ds)"
    by (rule fwd_intermediate_True_deps[OF ws nn])
  have e1: "\<forall>d\<in>set ?ds. \<exists>e. eval env d = Inl e"
    using eval_IdentityN_False by (auto simp del: eval.simps)
  have e2: "(\<forall>t\<in>set (dydxs_plain g ys xs). \<exists>v. eval env t = Inr v)
      \<longrightarrow> (\<forall>d\<in>set ?ds. eval env d = Inl AssertionFailed)"
    using eval_IdentityN_AssertionFailed by (auto simp del: eval.simps)
  from fi e1 e2 show "\<exists>dydxs. fwd_intermediate g ys xs True = Inr (dual_placeholders g ys, dydxs)
            \<and> length dydxs = length xs
            \<and> (\<forall>d\<in>set dydxs. \<exists>e. eval env d = Inl e)
            \<and> ((\<forall>t\<in>set (dydxs_plain g ys xs). \<exists>v. eval env t = Inr v)
                 \<longrightarrow> (\<forall>d\<in>set dydxs. eval env d = Inl AssertionFailed))"
    by (intro exI[of _ ?ds]) simp
next
  show "fwd_gradients \<lparr>op_count = 2\<rparr> [Placeholder 0 []] [Placeholder 0 [], Placeholder 1 []]
        None True = Inl TypeError"
    by code_simp
next
  show "fwd_gradients \<lparr>op_count = 2\<rparr> [Placeholder 0 []] [Placeholder 0 [], Placeholder 1 []]
        None False = Inr ([Some (Dense (Const (Num 1) []))], \<lparr>op_count = 5\<rparr>)"
    by code_simp
qed

theorem assert_unused_gates_the_intermediate_witness:
  "list_all well_shaped [Mul (Placeholder 0 []) (Placeholder 1 [])]
   \<and> fwd_gradients \<lparr>op_count = 2\<rparr> [Mul (Placeholder 0 []) (Placeholder 1 [])]
        [Placeholder 0 [], Placeholder 1 []] None True
      = fwd_gradients \<lparr>op_count = 2\<rparr> [Mul (Placeholder 0 []) (Placeholder 1 [])]
        [Placeholder 0 [], Placeholder 1 []] None False
   \<and> (\<exists>dydxs. fwd_intermediate \<lparr>op_count = 2\<rparr> [Mul (Placeholder 0 []) (Placeholder 1 [])]
          [Placeholder 0 [], Placeholder 1 []] True
            = Inr (dual_placeholders \<lparr>op_count = 2\<rparr> [Mul (Placeholder 0 []) (Placeholder 1 [])],
                   dydxs)
        \<and> length dydxs = length [Placeholder 0 [], Placeholder 1 []]
        \<and> list_all (\<lambda>d. eval (\<lambda>n. [2]) d = Inl AssertionFailed) dydxs)"
proof -
  let ?g = "\<lparr>op_count = 2\<rparr>"
  let ?ys = "[Mul (Placeholder 0 []) (Placeholder 1 [])]"
  let ?xs = "[Placeholder 0 [], Placeholder 1 []]"
  let ?u = "AddScalar (ZerosLike 2 (Mul (Placeholder 0 []) (Placeholder 1 []))) NaN"
  have ws: "list_all well_shaped ?ys" by simp
  have fp: "first_pass ?g ?ys ?xs
      = [Some (Dense (Mul ?u (Placeholder 1 []))), Some (Dense (Mul ?u (Placeholder 0 [])))]"
    by code_simp
  have nn: "None \<notin> set (first_pass ?g ?ys ?xs)" unfolding fp by simp
  have pl: "dydxs_plain ?g ?ys ?xs = [Mul ?u (Placeholder 1 []), Mul ?u (Placeholder 0 [])]"
    by code_simp
  have ev: "\<forall>t\<in>set (dydxs_plain ?g ?ys ?xs). \<exists>v. eval (\<lambda>n. [2]) t = Inr v"
    unfolding pl by simp
  note t = assert_unused_gates_the_intermediate[of ?ys ?g ?xs None "\<lambda>n. [2]"]
  from t ws nn have eq: "fwd_gradients ?g ?ys ?xs None True = fwd_gradients ?g ?ys ?xs None False"
    by blast
  from t ws nn ev have "\<exists>dydxs. fwd_intermediate ?g ?ys ?xs True
            = Inr (dual_placeholders ?g ?ys, dydxs)
        \<and> length dydxs = length ?xs
        \<and> (\<forall>d\<in>set dydxs. eval (\<lambda>n. [2]) d = Inl AssertionFailed)"
    by blast
  then have "\<exists>dydxs. fwd_intermediate ?g ?ys ?xs True
            = Inr (dual_placeholders ?g ?ys, dydxs)
        \<and> length dydxs = length ?xs
        \<and> list_all (\<lambda>d. eval (\<lambda>n. [2]) d = Inl AssertionFailed) dydxs"
    by (simp only: list_all_iff)
  with ws eq show ?thesis by blast
qed

subsection \<open>What the call touches\<close>

lemma not_registeredI: "n \<in> set (names t) \<Longrightarrow> op_count g \<le> n \<Longrightarrow> \<not> registered g t"
  unfolding registered_def list_all_iff using leD by blast

lemma names_add_grads:
  assumes "add_grads ga gb = Some r"
  shows "(\<forall>a. ga = Some a \<longrightarrow> set (names (convert_to_tensor a)) \<subseteq> set (names (convert_to_tensor r)))
       \<and> (\<forall>b. gb = Some b \<longrightarrow> set (names (convert_to_tensor b)) \<subseteq> set (names (convert_to_tensor r)))"
  using assms by (cases ga; cases gb) auto

lemma names_backprop:
  "backprop y x s = Some r \<Longrightarrow> set (names s) \<subseteq> set (names (convert_to_tensor r))"
proof (induction y x s arbitrary: r rule: backprop.induct)
  case (5 a b x s)
  show ?case
  proof (cases "Add a b = x")
    case True
    with 5(3) show ?thesis by auto
  next
    case False
    with 5(3) have r: "add_grads (backprop a x s) (backprop b x s) = Some r" by simp
    then have "backprop a x s \<noteq> None \<or> backprop b x s \<noteq> None" by (auto simp del: backprop.simps)
    then show ?thesis
    proof
      assume "backprop a x s \<noteq> None"
      then obtain ra where ra: "backprop a x s = Some ra" by auto
      from 5(1)[OF False ra] names_add_grads[OF r] ra show ?thesis by blast
    next
      assume "backprop b x s \<noteq> None"
      then obtain rb where rb: "backprop b x s = Some rb" by auto
      from 5(2)[OF False rb] names_add_grads[OF r] rb show ?thesis by blast
    qed
  qed
next
  case (6 a b x s)
  show ?case
  proof (cases "Mul a b = x")
    case True
    with 6(3) show ?thesis by auto
  next
    case False
    with 6(3) have r: "add_grads (backprop a x (Mul s b)) (backprop b x (Mul s a)) = Some r"
      by simp
    then have "backprop a x (Mul s b) \<noteq> None \<or> backprop b x (Mul s a) \<noteq> None"
      by (auto simp del: backprop.simps)
    then show ?thesis
    proof
      assume "backprop a x (Mul s b) \<noteq> None"
      then obtain ra where ra: "backprop a x (Mul s b) = Some ra" by auto
      from 6(1)[OF False ra] names_add_grads[OF r] ra show ?thesis by auto
    next
      assume "backprop b x (Mul s a) \<noteq> None"
      then obtain rb where rb: "backprop b x (Mul s a) = Some rb" by auto
      from 6(2)[OF False rb] names_add_grads[OF r] rb show ?thesis by auto
    qed
  qed
qed (auto split: if_splits)

lemma is_new_not_registered: "is_new g t \<Longrightarrow> \<not> registered g t"
  unfolding is_new_def list_ex_iff using not_registeredI by blast

lemma is_new_mono: "is_new g s \<Longrightarrow> set (names s) \<subseteq> set (names t) \<Longrightarrow> is_new g t"
  by (auto simp: is_new_def list_ex_iff)

lemma add_grads_is_new:
  assumes "add_grads ga gb = Some r"
    and "\<And>a. ga = Some a \<Longrightarrow> is_new g (convert_to_tensor a)"
    and "\<And>b. gb = Some b \<Longrightarrow> is_new g (convert_to_tensor b)"
  shows "is_new g (convert_to_tensor r)"
proof (cases ga)
  case None
  with assms(1) have "gb = Some r" by simp
  with assms(3) show ?thesis by simp
next
  case (Some a)
  with names_add_grads[OF assms(1)] assms(2) show ?thesis
    by (auto intro: is_new_mono)
qed

lemma foldl_add_grads_is_new:
  assumes "\<forall>c\<in>set cs. \<forall>gr. c = Some gr \<longrightarrow> is_new g (convert_to_tensor gr)"
    and "\<And>a. acc = Some a \<Longrightarrow> is_new g (convert_to_tensor a)"
    and "foldl add_grads acc cs = Some r"
  shows "is_new g (convert_to_tensor r)"
  using assms
proof (induction cs arbitrary: acc)
  case Nil
  then show ?case by simp
next
  case (Cons c cs)
  have step: "\<And>a. add_grads acc c = Some a \<Longrightarrow> is_new g (convert_to_tensor a)"
  proof -
    fix a assume a: "add_grads acc c = Some a"
    show "is_new g (convert_to_tensor a)"
      by (rule add_grads_is_new[OF a]) (use Cons.prems in auto)
  qed
  show ?case
    by (rule Cons.IH[of "add_grads acc c"]) (use Cons.prems step in auto)
qed

lemma dual_placeholder_is_new:
  "k < length ys \<Longrightarrow> is_new g (dual_placeholders g ys ! k)"
  by (simp add: nth_dual_placeholders is_new_def)

lemma first_pass_is_new:
  assumes "i < length xs" and "first_pass g ys xs ! i = Some gr"
  shows "is_new g (convert_to_tensor gr)"
proof -
  let ?cs = "map2 (\<lambda>y s. backprop y (xs ! i) s) ys (dual_placeholders g ys)"
  have cs: "\<forall>c\<in>set ?cs. \<forall>r. c = Some r \<longrightarrow> is_new g (convert_to_tensor r)"
  proof (intro ballI allI impI)
    fix c r assume c: "c \<in> set ?cs" and r: "c = Some r"
    then obtain k where k: "k < length ys"
      "c = backprop (ys ! k) (xs ! i) (dual_placeholders g ys ! k)"
      by (auto simp: in_set_conv_nth)
    from names_backprop[of "ys ! k" "xs ! i" "dual_placeholders g ys ! k" r] k r
    have "set (names (dual_placeholders g ys ! k)) \<subseteq> set (names (convert_to_tensor r))"
      by simp
    with dual_placeholder_is_new[OF k(1), of g] show "is_new g (convert_to_tensor r)"
      by (rule is_new_mono)
  qed
  moreover have "foldl add_grads None ?cs = Some gr"
    using assms by (simp add: first_pass_def)
  ultimately show ?thesis
    using foldl_add_grads_is_new[of ?cs g None gr] by simp
qed

lemma dydxs_plain_is_new:
  assumes "i < length xs"
  shows "is_new g (dydxs_plain g ys xs ! i)"
proof (cases "first_pass g ys xs ! i")
  case None
  with assms show ?thesis by (simp add: dydxs_plain_def is_new_def)
next
  case (Some gr)
  with first_pass_is_new[OF assms Some] assms show ?thesis by (simp add: dydxs_plain_def)
qed

lemma fwd_intermediate_is_new:
  assumes "fwd_intermediate g ys xs a = Inr (us, dydxs)"
  shows "list_all (is_new g) us \<and> list_all (is_new g) dydxs"
proof -
  from fwd_intermediate_Inr[OF assms] obtain deps where
    us: "us = dual_placeholders g ys" and
    dy: "dydxs = map (if a then IdentityN False deps else id) (dydxs_plain g ys xs)"
    by blast
  have "list_all (is_new g) us"
    unfolding us list_all_length by (simp add: dual_placeholder_is_new)
  moreover have "list_all (is_new g) dydxs"
    unfolding dy list_all_length
  proof (intro allI impI)
    fix i assume "i < length (map (if a then IdentityN False deps else id) (dydxs_plain g ys xs))"
    then have i: "i < length xs" by simp
    from dydxs_plain_is_new[OF i, of g ys] i
    show "is_new g (map (if a then IdentityN False deps else id) (dydxs_plain g ys xs) ! i)"
      by (cases a) (auto simp: is_new_def)
  qed
  ultimately show ?thesis by simp
qed

subsection \<open>Sparse results of the first pass\<close>

lemma set_shapes_dense:
  "set_shapes zs = Inr ts \<Longrightarrow> map snd zs = map (\<lambda>t. Some (Dense t)) ts"
proof (induction zs arbitrary: ts)
  case Nil
  then show ?case by simp
next
  case (Cons z zs)
  obtain x d where z: "z = (x, d)" by (cases z)
  from Cons.prems z obtain t ts' where
    t: "set_shape d (shape_of x) = Inr t" and ts': "set_shapes zs = Inr ts'" and
    ts: "ts = t # ts'"
    by (auto split: sum.splits)
  from set_shape_Inr[OF t] Cons.IH[OF ts'] z ts show ?case by simp
qed

lemma fwd_intermediate_set_shapes:
  assumes "fwd_intermediate g ys xs a = Inr (us, dydxs)"
  shows "set_shapes (zip xs (map (\<lambda>t. Some (Dense t)) dydxs)) = Inr dydxs"
proof -
  let ?d1 = "map densify (first_pass g ys xs)"
  let ?r = "if a then assert_instrumentation ?d1 else Inr ?d1"
  obtain d2 where d2: "?r = Inr d2"
    using assms unfolding fwd_intermediate_unfold by (cases ?r) simp_all
  let ?ds = "fill_nones (op_count g + length ys) xs d2"
  obtain ts where ts: "set_shapes (zip xs ?ds) = Inr ts"
    using assms unfolding fwd_intermediate_unfold d2
    by (cases "set_shapes (zip xs ?ds)") simp_all
  from assms have dy: "dydxs = ts"
    unfolding fwd_intermediate_unfold d2 by (simp add: ts)
  have len: "length d2 = length xs"
  proof (cases a)
    case True
    with d2 have "assert_instrumentation ?d1 = Inr d2" by simp
    from assert_instrumentation_length[OF this] show ?thesis by simp
  next
    case False
    with d2 show ?thesis by auto
  qed
  have "map snd (zip xs ?ds) = ?ds" using len by simp
  with set_shapes_dense[OF ts] have "?ds = map (\<lambda>t. Some (Dense t)) ts" by simp
  with ts dy show ?thesis by simp
qed

lemma fwd_intermediate_Inr_exact:
  assumes "fwd_intermediate g ys xs a = Inr (us, dydxs)"
  shows "us = dual_placeholders g ys
     \<and> (\<not> a \<longrightarrow> dydxs = dydxs_plain g ys xs)
     \<and> (a \<longrightarrow> control_dependencies (map densify (first_pass g ys xs))
                  = Inr (dydxs_plain g ys xs)
             \<and> dydxs = map (IdentityN False (dydxs_plain g ys xs)) (dydxs_plain g ys xs))"
proof -
  from fwd_intermediate_Inr[OF assms] obtain deps where
    us: "us = dual_placeholders g ys" and
    a: "a \<longrightarrow> None \<notin> set (first_pass g ys xs)
          \<and> control_dependencies (map densify (first_pass g ys xs)) = Inr deps" and
    dy: "dydxs = map (if a then IdentityN False deps else id) (dydxs_plain g ys xs)"
    by blast
  show ?thesis
  proof (cases a)
    case False
    with us dy show ?thesis by simp
  next
    case True
    with a have nn: "None \<notin> set (first_pass g ys xs)" and
      deps: "control_dependencies (map densify (first_pass g ys xs)) = Inr deps"
      by simp_all
    from deps control_dependencies_dense[OF nn] dydxs_plain_no_None[OF nn]
    have "deps = dydxs_plain g ys xs" by simp
    with True us dy deps show ?thesis by simp
  qed
qed

text \<open>
  Claim C7. When the first reverse-mode pass returns an entry in indexed form, every later
  step works on its dense conversion, the dense entries as they are and a missing one as
  zeros: these are the \<open>dydxs_plain\<close>. The assertion instrumentation takes exactly them as
  control inputs and passes exactly them through \<open>identity_n\<close>; the shape setting is applied
  to them as tensors; the second reverse-mode call differentiates them, and what it returns
  is the result. An indexed entry never makes the call fail: no \<open>AttributeError\<close> arises at
  all, a \<open>TypeError\<close> only from a missing entry under \<open>assert_unused\<close>, and for well-shaped
  \<open>ys\<close> with no entry missing under \<open>assert_unused\<close> and a seed list of the right length the
  call returns.
\<close>

theorem sparse_first_pass_is_densified:
  "fwd_gradients g ys xs grad_xs a \<noteq> Inl AttributeError
   \<and> (fwd_gradients g ys xs grad_xs a = Inl TypeError
        \<longrightarrow> a \<and> None \<in> set (first_pass g ys xs))
   \<and> (\<forall>i<length xs.
         dydxs_plain g ys xs ! i =
           (case first_pass g ys xs ! i of
              None \<Rightarrow> ZerosLike (op_count g + length ys + i) (xs ! i)
            | Some (Dense t) \<Rightarrow> t
            | Some (IndexedSlices v idx s) \<Rightarrow> UnsortedSegmentSum v idx (hd s)))
   \<and> (fwd_intermediate g ys xs a = Inr (us, dydxs) \<longrightarrow>
        us = dual_placeholders g ys
        \<and> (\<not> a \<longrightarrow> dydxs = dydxs_plain g ys xs)
        \<and> (a \<longrightarrow> control_dependencies (map densify (first_pass g ys xs))
                     = Inr (dydxs_plain g ys xs)
                \<and> dydxs = map (IdentityN False (dydxs_plain g ys xs)) (dydxs_plain g ys xs))
        \<and> set_shapes (zip xs (map (\<lambda>t. Some (Dense t)) dydxs)) = Inr dydxs)
   \<and> (fwd_gradients g ys xs grad_xs a = Inr (dysdx, g') \<longrightarrow>
        gradients
          (if a then map (IdentityN False (dydxs_plain g ys xs)) (dydxs_plain g ys xs)
           else dydxs_plain g ys xs)
          (dual_placeholders g ys) grad_xs = Inr dysdx)
   \<and> (list_all well_shaped ys \<longrightarrow> (a \<longrightarrow> None \<notin> set (first_pass g ys xs))
        \<longrightarrow> (case grad_xs of None \<Rightarrow> True | Some s \<Rightarrow> length s = length xs)
        \<longrightarrow> (\<exists>dysdx g'. fwd_gradients g ys xs grad_xs a = Inr (dysdx, g')))"
proof (intro conjI impI allI)
  show "fwd_gradients g ys xs grad_xs a \<noteq> Inl AttributeError"
    using fwd_gradients_Inl[of g ys xs grad_xs a AttributeError] by auto
next
  assume "fwd_gradients g ys xs grad_xs a = Inl TypeError"
  from fwd_gradients_Inl[OF this] show a by simp
next
  assume "fwd_gradients g ys xs grad_xs a = Inl TypeError"
  from fwd_gradients_Inl[OF this] show "None \<in> set (first_pass g ys xs)" by simp
next
  fix i assume "i < length xs"
  then show "dydxs_plain g ys xs ! i =
           (case first_pass g ys xs ! i of
              None \<Rightarrow> ZerosLike (op_count g + length ys + i) (xs ! i)
            | Some (Dense t) \<Rightarrow> t
            | Some (IndexedSlices v idx s) \<Rightarrow> UnsortedSegmentSum v idx (hd s))"
    by (simp add: dydxs_plain_def split: option.split grad.split)
next
  assume fi: "fwd_intermediate g ys xs a = Inr (us, dydxs)"
  from fwd_intermediate_Inr_exact[OF fi] show "us = dual_placeholders g ys" by simp
next
  assume fi: "fwd_intermediate g ys xs a = Inr (us, dydxs)" and "\<not> a"
  with fwd_intermediate_Inr_exact[OF fi] show "dydxs = dydxs_plain g ys xs" by simp
next
  assume fi: "fwd_intermediate g ys xs a = Inr (us, dydxs)" and a
  with fwd_intermediate_Inr_exact[OF fi]
  show "control_dependencies (map densify (first_pass g ys xs)) = Inr (dydxs_plain g ys xs)"
    by simp
next
  assume fi: "fwd_intermediate g ys xs a = Inr (us, dydxs)" and a
  with fwd_intermediate_Inr_exact[OF fi]
  show "dydxs = map (IdentityN False (dydxs_plain g ys xs)) (dydxs_plain g ys xs)"
    by simp
next
  assume "fwd_intermediate g ys xs a = Inr (us, dydxs)"
  then show "set_shapes (zip xs (map (\<lambda>t. Some (Dense t)) dydxs)) = Inr dydxs"
    by (rule fwd_intermediate_set_shapes)
next
  assume r: "fwd_gradients g ys xs grad_xs a = Inr (dysdx, g')"
  from fwd_gradients_Inr[OF r] obtain dydxs where
    fi: "fwd_intermediate g ys xs a = Inr (dual_placeholders g ys, dydxs)" and
    gr: "gradients dydxs (dual_placeholders g ys) grad_xs = Inr dysdx"
    by blast
  from fwd_intermediate_Inr_exact[OF fi]
  have "dydxs = (if a then map (IdentityN False (dydxs_plain g ys xs)) (dydxs_plain g ys xs)
           else dydxs_plain g ys xs)"
    by (cases a) simp_all
  with gr show "gradients
          (if a then map (IdentityN False (dydxs_plain g ys xs)) (dydxs_plain g ys xs)
           else dydxs_plain g ys xs)
          (dual_placeholders g ys) grad_xs = Inr dysdx"
    by simp
next
  assume "list_all well_shaped ys" "a \<longrightarrow> None \<notin> set (first_pass g ys xs)"
    "case grad_xs of None \<Rightarrow> True | Some s \<Rightarrow> length s = length xs"
  then show "\<exists>dysdx g'. fwd_gradients g ys xs grad_xs a = Inr (dysdx, g')"
    by (rule fwd_gradients_succeeds)
qed

theorem sparse_first_pass_is_densified_witness:
  "first_pass \<lparr>op_count = 1\<rparr> [Gather (Placeholder 0 [3]) [0, 1]] [Placeholder 0 [3]]
     = [Some (IndexedSlices
          (AddScalar (ZerosLike 1 (Gather (Placeholder 0 [3]) [0, 1])) NaN) [0, 1] [3])]
   \<and> list_all well_shaped [Gather (Placeholder 0 [3]) [0, 1]]
   \<and> dydxs_plain \<lparr>op_count = 1\<rparr> [Gather (Placeholder 0 [3]) [0, 1]] [Placeholder 0 [3]]
      = [UnsortedSegmentSum
           (AddScalar (ZerosLike 1 (Gather (Placeholder 0 [3]) [0, 1])) NaN) [0, 1] 3]
   \<and> fwd_intermediate \<lparr>op_count = 1\<rparr> [Gather (Placeholder 0 [3]) [0, 1]]
        [Placeholder 0 [3]] True
      = Inr ([AddScalar (ZerosLike 1 (Gather (Placeholder 0 [3]) [0, 1])) NaN],
             [IdentityN False
                [UnsortedSegmentSum
                   (AddScalar (ZerosLike 1 (Gather (Placeholder 0 [3]) [0, 1])) NaN) [0, 1] 3]
                (UnsortedSegmentSum
                   (AddScalar (ZerosLike 1 (Gather (Placeholder 0 [3]) [0, 1])) NaN) [0, 1] 3)])
   \<and> fwd_gradients \<lparr>op_count = 1\<rparr> [Gather (Placeholder 0 [3]) [0, 1]]
         [Placeholder 0 [3]] None True
      = Inr ([Some (Dense (Gather (Const (Num 1) [3]) [0, 1]))], \<lparr>op_count = 3\<rparr>)
   \<and> gradients
        [IdentityN False
           [UnsortedSegmentSum
              (AddScalar (ZerosLike 1 (Gather (Placeholder 0 [3]) [0, 1])) NaN) [0, 1] 3]
           (UnsortedSegmentSum
              (AddScalar (ZerosLike 1 (Gather (Placeholder 0 [3]) [0, 1])) NaN) [0, 1] 3)]
        [AddScalar (ZerosLike 1 (Gather (Placeholder 0 [3]) [0, 1])) NaN] None
      = Inr [Some (Dense (Gather (Const (Num 1) [3]) [0, 1]))]"
proof -
  let ?g = "\<lparr>op_count = 1\<rparr>"
  let ?ys = "[Gather (Placeholder 0 [3]) [0, 1]]"
  let ?xs = "[Placeholder 0 [3]]"
  let ?u = "AddScalar (ZerosLike 1 (Gather (Placeholder 0 [3]) [0, 1])) NaN"
  let ?d = "UnsortedSegmentSum ?u [0, 1] 3"
  let ?r = "[Some (Dense (Gather (Const (Num 1) [3]) [0, 1]))]"
  have fp: "first_pass ?g ?ys ?xs = [Some (IndexedSlices ?u [0, 1] [3])]" by code_simp
  have ws: "list_all well_shaped ?ys" by simp
  have pl: "dydxs_plain ?g ?ys ?xs = [?d]" by code_simp
  have fi: "fwd_intermediate ?g ?ys ?xs True = Inr ([?u], [IdentityN False [?d] ?d])"
    by code_simp
  have fg: "fwd_gradients ?g ?ys ?xs None True = Inr (?r, \<lparr>op_count = 3\<rparr>)" by code_simp
  note t = sparse_first_pass_is_densified
    [of ?g ?ys ?xs None True "[?u]" "[IdentityN False [?d] ?d]" ?r "\<lparr>op_count = 3\<rparr>"]
  from t fg have "gradients (map (IdentityN False (dydxs_plain ?g ?ys ?xs))
       (dydxs_plain ?g ?ys ?xs)) (dual_placeholders ?g ?ys) None = Inr ?r"
    by (simp only: if_True simp_thms)
  moreover from t fi have "[?u] = dual_placeholders ?g ?ys" by (simp only: simp_thms)
  ultimately have "gradients [IdentityN False [?d] ?d] [?u] None = Inr ?r"
    by (simp only: pl list.map)
  with fp ws pl fi fg show ?thesis by blast
qed

subsection \<open>Single precision\<close>

lemma ulp_exponent_eq:
  assumes "2 powr of_int e \<le> \<bar>x\<bar>" and "\<bar>x\<bar> < 2 powr of_int (e + 1)"
  shows "ulp_exponent x = max (e - 23) (- 149)"
proof -
  have "0 < \<bar>x\<bar>" using assms(1) by (smt (verit) powr_gt_zero)
  then have "\<lfloor>log 2 \<bar>x\<bar>\<rfloor> = e"
    using assms by (subst floor_log_eq_powr_iff) simp_all
  then show ?thesis by (simp add: ulp_exponent_def)
qed

lemma ulp_exponent_nat:
  assumes "2 ^ n \<le> \<bar>x\<bar>" and "\<bar>x\<bar> < 2 ^ Suc n"
  shows "ulp_exponent x = max (int n - 23) (- 149)"
proof (rule ulp_exponent_eq)
  show "2 powr real_of_int (int n) \<le> \<bar>x\<bar>" using assms(1) by (simp add: powr_realpow)
  have "(2::real) powr real_of_int (int n + 1) = 2 ^ Suc n"
    by (metis of_int_of_nat_eq of_nat_Suc powr_realpow zero_less_numeral add.commute)
  with assms(2) show "\<bar>x\<bar> < 2 powr real_of_int (int n + 1)" by simp
qed

lemma round_f32_big:
  assumes "2 ^ n \<le> \<bar>x\<bar>" and "\<bar>x\<bar> < 2 ^ Suc n" and "23 \<le> n"
  shows "round_f32 x =
     (let y = 2 ^ (n - 23) * of_int (round_half_even (x / 2 ^ (n - 23)))
      in if 2 ^ 128 \<le> \<bar>y\<bar> then F32_Inf (x < 0) else F32 y)"
proof -
  have x: "x \<noteq> 0"
  proof
    assume "x = 0"
    with assms(1) have "(2::real) ^ n \<le> 0" by simp
    with zero_less_power[of "2::real" n] show False by linarith
  qed
  have "ulp_exponent x = int (n - 23)"
    using ulp_exponent_nat[OF assms(1,2)] assms(3) by simp
  then have "(2::real) powr of_int (ulp_exponent x) = 2 ^ (n - 23)"
    by (simp add: powr_realpow)
  with x show ?thesis by (simp add: round_f32_def Let_def)
qed

lemma round_f32_small:
  assumes "2 ^ n \<le> \<bar>x\<bar>" and "\<bar>x\<bar> < 2 ^ Suc n" and "n < 23"
  shows "round_f32 x =
     (let y = of_int (round_half_even (x * 2 ^ (23 - n))) / 2 ^ (23 - n)
      in if 2 ^ 128 \<le> \<bar>y\<bar> then F32_Inf (x < 0) else F32 y)"
proof -
  have x: "x \<noteq> 0"
  proof
    assume "x = 0"
    with assms(1) have "(2::real) ^ n \<le> 0" by simp
    with zero_less_power[of "2::real" n] show False by linarith
  qed
  have "ulp_exponent x = - int (23 - n)"
    using ulp_exponent_nat[OF assms(1,2)] assms(3) by simp
  then have "(2::real) powr of_int (ulp_exponent x) = 1 / 2 ^ (23 - n)"
    by (simp add: powr_minus powr_realpow divide_simps)
  with x show ?thesis by (simp add: round_f32_def Let_def)
qed

lemma round_f32_0 [simp]: "round_f32 0 = F32 0"
  by (simp add: round_f32_def)

lemma round_f32_1 [simp]: "round_f32 1 = F32 1"
  by (simp add: round_f32_small[where n = 0] round_half_even_def)



text \<open>The closed form of the product holds in single precision as well, for feeds that
  are single-precision numbers.\<close>

lemma product_rule_single_precision:
  assumes "n1 \<noteq> n2" and "env n1 = [a]" and "env n2 = [b]"
    and "round_f32 a = F32 a" and "round_f32 b = F32 b"
  shows "(\<exists>r g'. fwd_gradients g [Mul (Placeholder n1 []) (Placeholder n2 [])]
              [Placeholder n1 [], Placeholder n2 []]
              (Some [Const (Num 1) [], Const (Num 0) []]) au = Inr ([Some (Dense r)], g')
            \<and> eval32 env r = Inr [F32 b])
       \<and> (\<exists>r g'. fwd_gradients g [Mul (Placeholder n1 []) (Placeholder n2 [])]
              [Placeholder n1 [], Placeholder n2 []]
              (Some [Const (Num 0) [], Const (Num 1) []]) au = Inr ([Some (Dense r)], g')
            \<and> eval32 env r = Inr [F32 a])"
  using assms by (cases au) (simp_all add: fwd_defs upt_rec)

subsection \<open>The call and the graph around it\<close>

lemma extendsI:
  assumes "nodes A' = nodes A @ new" and "set new \<inter> set (nodes A) = {}"
    and "assertions A' = assertions A @ n"
  shows "extends A A'"
  using assms by (auto simp: extends_def list_all_iff)

lemma extendsD:
  assumes "extends A A'"
  shows "\<exists>new n. nodes A' = nodes A @ new \<and> set new \<inter> set (nodes A) = {}
           \<and> assertions A' = assertions A @ n"
proof -
  let ?new = "drop (length (nodes A)) (nodes A')"
  let ?n = "drop (length (assertions A)) (assertions A')"
  from assms have "nodes A' = nodes A @ ?new"
    by (metis append_take_drop_id extends_def)
  moreover from assms have "set ?new \<inter> set (nodes A) = {}"
    by (auto simp: extends_def list_all_iff)
  moreover from assms have "assertions A' = assertions A @ ?n"
    by (metis append_take_drop_id extends_def)
  ultimately show ?thesis by blast
qed

lemma extends_refl [simp]: "extends A A"
  by (rule extendsI[of _ _ "[]" "[]"]) simp_all

lemma extends_trans:
  assumes "extends A B" and "extends B C"
  shows "extends A C"
proof -
  from extendsD[OF assms(1)] obtain n1 a1 where
    1: "nodes B = nodes A @ n1" "set n1 \<inter> set (nodes A) = {}" "assertions B = assertions A @ a1"
    by blast
  from extendsD[OF assms(2)] obtain n2 a2 where
    2: "nodes C = nodes B @ n2" "set n2 \<inter> set (nodes B) = {}" "assertions C = assertions B @ a2"
    by blast
  show ?thesis
    by (rule extendsI[of _ _ "n1 @ n2" "a1 @ a2"]) (use 1 2 in auto)
qed

lemma add_node_extends:
  "extends A (add_node t A) \<and> static_shape (add_node t A) = static_shape A"
proof (cases "t \<in> set (nodes A)")
  case True
  then show ?thesis by (simp add: add_node_def)
next
  case False
  have "extends A (A\<lparr>nodes := nodes A @ [t]\<rparr>)"
    by (rule extendsI[of _ _ "[t]" "[]"]) (use False in auto)
  with False show ?thesis by (simp add: add_node_def)
qed

lemma fold_add_node_extends:
  "extends A (fold add_node ts A) \<and> static_shape (fold add_node ts A) = static_shape A"
proof (induction ts arbitrary: A)
  case Nil
  then show ?case by simp
next
  case (Cons t ts)
  from add_node_extends[of A t] Cons[of "add_node t A"] show ?case
    by (auto intro: extends_trans)
qed

lemma register_extends:
  "extends A (register ts A) \<and> static_shape (register ts A) = static_shape A"
  unfolding register_def by (rule fold_add_node_extends)

lemma register_grads_extends:
  "extends A (register_grads ds A) \<and> static_shape (register_grads ds A) = static_shape A"
  unfolding register_grads_def by (rule register_extends)

lemma assert_instrumentation_in_result:
  "snd (assert_instrumentation_in ds A) = assert_instrumentation ds"
  by (simp add: assert_instrumentation_in_def assert_instrumentation_def Let_def
      split: sum.split)

lemma assert_instrumentation_in_extends:
  "extends A (fst (assert_instrumentation_in ds A))
     \<and> static_shape (fst (assert_instrumentation_in ds A)) = static_shape A"
proof (cases "control_dependencies ds")
  case (Inl e)
  then show ?thesis by (simp add: assert_instrumentation_in_def)
next
  case (Inr deps)
  let ?A' = "A\<lparr>assertions := assertions A @ [(False, deps)]\<rparr>"
  have e: "extends A ?A'" by (rule extendsI[of _ _ "[]" "[(False, deps)]"]) simp_all
  show ?thesis
  proof (cases "identity_n False deps ds")
    case (Inl e')
    with Inr e show ?thesis by (simp add: assert_instrumentation_in_def)
  next
    case (Inr r)
    from register_grads_extends[of ?A' r] e
    have "extends A (register_grads r ?A') \<and> static_shape (register_grads r ?A') = static_shape A"
      by (auto intro: extends_trans)
    with Inr \<open>control_dependencies ds = Inr deps\<close> show ?thesis
      by (simp add: assert_instrumentation_in_def)
  qed
qed

lemma set_shapes_in_result: "snd (set_shapes_in zs A) = set_shapes zs"
proof (induction zs arbitrary: A)
  case Nil
  then show ?case by simp
next
  case (Cons z zs)
  obtain x d where z: "z = (x, d)" by (cases z)
  show ?case
  proof (cases "set_shape d (shape_of x)")
    case (Inl e)
    with z show ?thesis by simp
  next
    case (Inr t)
    let ?A = "A\<lparr>static_shape := (static_shape A)(t \<mapsto> shape_of x)\<rparr>"
    from Cons[of ?A] have "snd (set_shapes_in zs ?A) = set_shapes zs" .
    with z Inr show ?thesis
      by (cases "set_shapes_in zs ?A"; cases "set_shapes zs") auto
  qed
qed

lemma set_shapes_in_frame:
  assumes "\<forall>z\<in>set zs. \<forall>t. snd z = Some (Dense t) \<longrightarrow> is_new g t"
  shows "nodes (fst (set_shapes_in zs A)) = nodes A
     \<and> assertions (fst (set_shapes_in zs A)) = assertions A
     \<and> (\<forall>t. registered g t \<longrightarrow> static_shape (fst (set_shapes_in zs A)) t = static_shape A t)"
  using assms
proof (induction zs arbitrary: A)
  case Nil
  then show ?case by simp
next
  case (Cons z zs)
  obtain x d where z: "z = (x, d)" by (cases z)
  show ?case
  proof (cases "set_shape d (shape_of x)")
    case (Inl e)
    with z show ?thesis by simp
  next
    case (Inr t)
    let ?A = "A\<lparr>static_shape := (static_shape A)(t \<mapsto> shape_of x)\<rparr>"
    from set_shape_Inr[OF Inr] have d: "d = Some (Dense t)" by simp
    with Cons.prems z have "is_new g t" by simp
    then have nr: "\<not> registered g t" by (rule is_new_not_registered)
    have ih: "nodes (fst (set_shapes_in zs ?A)) = nodes ?A
     \<and> assertions (fst (set_shapes_in zs ?A)) = assertions ?A
     \<and> (\<forall>t. registered g t \<longrightarrow> static_shape (fst (set_shapes_in zs ?A)) t = static_shape ?A t)"
      by (rule Cons.IH) (use Cons.prems in simp)
    have fst: "fst (set_shapes_in (z # zs) A) = fst (set_shapes_in zs ?A)"
      using z Inr by (cases "set_shapes_in zs ?A") (auto split: sum.split)
    from ih nr show ?thesis unfolding fst by auto
  qed
qed

lemma fill_nones_is_new:
  assumes d2: "(if a then assert_instrumentation (map densify (first_pass g ys xs))
                else Inr (map densify (first_pass g ys xs))) = Inr d2"
  shows "\<forall>z\<in>set (zip xs (fill_nones (op_count g + length ys) xs d2)).
           \<forall>t. snd z = Some (Dense t) \<longrightarrow> is_new g t"
proof (intro ballI allI impI)
  let ?fp = "first_pass g ys xs"
  let ?d1 = "map densify ?fp"
  let ?n = "op_count g + length ys"
  fix z t
  assume z: "z \<in> set (zip xs (fill_nones ?n xs d2))" and t: "snd z = Some (Dense t)"
  have len: "length d2 = length xs"
  proof (cases a)
    case True
    with d2 have "assert_instrumentation ?d1 = Inr d2" by simp
    from assert_instrumentation_length[OF this] show ?thesis by simp
  next
    case False
    with d2 show ?thesis by auto
  qed
  from z len obtain i where i: "i < length xs" and zi: "z = (xs ! i, fill_nones ?n xs d2 ! i)"
    by (auto simp: set_zip)
  from zi t i len have f: "fill_none (?n + i) (xs ! i, d2 ! i) = Some (Dense t)"
    by (simp add: nth_fill_nones)
  show "is_new g t"
  proof (cases a)
    case False
    with d2 have d2': "d2 = ?d1" by simp
    show ?thesis
    proof (cases "?fp ! i")
      case None
      with f i d2' have "t = ZerosLike (?n + i) (xs ! i)"
        by (simp add: densify_cases zeros_like_def)
      then show ?thesis by (simp add: is_new_def)
    next
      case (Some gr)
      with f i d2' have "t = convert_to_tensor gr" by (simp add: densify_cases)
      with first_pass_is_new[OF i Some] show ?thesis by simp
    qed
  next
    case True
    with d2 have "assert_instrumentation ?d1 = Inr d2" by simp
    from assert_instrumentation_Inr[OF this] obtain deps where
      nn: "None \<notin> set ?d1" and
      d2': "d2 = map (\<lambda>d. Some (Dense (IdentityN False deps (convert_to_tensor (the d))))) ?d1"
      by blast
    have "?fp ! i \<noteq> None"
    proof
      assume "?fp ! i = None"
      with i have "?d1 ! i = None" by (simp add: densify_cases)
      with i nn show False by (metis length_first_pass length_map nth_mem)
    qed
    then obtain gr where gr: "?fp ! i = Some gr" by auto
    with f i d2' have "t = IdentityN False deps (convert_to_tensor gr)"
      by (simp add: densify_cases)
    moreover from first_pass_is_new[OF i gr] have "is_new g (convert_to_tensor gr)" .
    ultimately show ?thesis by (auto simp: is_new_def)
  qed
qed

lemma fwd_gradients_in_unfold:
  "fwd_gradients_in A g ys xs grad_xs a =
     (let us = dual_placeholders g ys;
          d1 = map densify (first_pass g ys xs);
          A3 = register_grads d1 (register_grads (first_pass g ys xs) (register us A));
          P = (if a then assert_instrumentation_in d1 A3 else (A3, Inr d1))
      in case snd P of Inl e \<Rightarrow> (fst P, Inl e)
         | Inr d2 \<Rightarrow>
            (let d3 = fill_nones (op_count g + length ys) xs d2;
                 Q = set_shapes_in (zip xs d3) (register_grads d3 (fst P))
             in case snd Q of Inl e \<Rightarrow> (fst Q, Inl e)
                | Inr dydxs \<Rightarrow>
                   (case gradients dydxs us grad_xs of Inl e \<Rightarrow> (fst Q, Inl e)
                    | Inr dysdx \<Rightarrow> (register_grads dysdx (fst Q), Inr dysdx))))"
  by (simp add: fwd_gradients_in_def gradients_first_pass Let_def
      split: prod.split sum.split)

lemma fwd_gradients_in_frame:
  "snd (fwd_gradients_in A g ys xs grad_xs a) = map_sum id fst (fwd_gradients g ys xs grad_xs a)
   \<and> extends A (fst (fwd_gradients_in A g ys xs grad_xs a))
   \<and> (\<forall>t. registered g t \<longrightarrow>
          static_shape (fst (fwd_gradients_in A g ys xs grad_xs a)) t = static_shape A t)"
proof -
  let ?us = "dual_placeholders g ys"
  let ?fp = "first_pass g ys xs"
  let ?d1 = "map densify ?fp"
  let ?n = "op_count g + length ys"
  define A3 where "A3 = register_grads ?d1 (register_grads ?fp (register ?us A))"
  define P where "P = (if a then assert_instrumentation_in ?d1 A3 else (A3, Inr ?d1))"
  define r2 where "r2 = (if a then assert_instrumentation ?d1 else Inr ?d1)"
  have A3: "extends A A3 \<and> static_shape A3 = static_shape A"
    unfolding A3_def
    using register_extends[of A ?us] register_grads_extends[of "register ?us A" ?fp]
      register_grads_extends[of "register_grads ?fp (register ?us A)" ?d1]
    by (auto intro: extends_trans)
  have P: "extends A (fst P) \<and> static_shape (fst P) = static_shape A"
  proof (cases a)
    case True
    with assert_instrumentation_in_extends[of A3 ?d1] A3 show ?thesis
      by (auto simp: P_def intro: extends_trans)
  next
    case False
    with A3 show ?thesis by (simp add: P_def)
  qed
  have sP: "snd P = r2"
    by (simp add: P_def r2_def assert_instrumentation_in_result)
  have unf: "fwd_gradients_in A g ys xs grad_xs a =
     (case snd P of Inl e \<Rightarrow> (fst P, Inl e)
         | Inr d2 \<Rightarrow>
            (let d3 = fill_nones ?n xs d2;
                 Q = set_shapes_in (zip xs d3) (register_grads d3 (fst P))
             in case snd Q of Inl e \<Rightarrow> (fst Q, Inl e)
                | Inr dydxs \<Rightarrow>
                   (case gradients dydxs ?us grad_xs of Inl e \<Rightarrow> (fst Q, Inl e)
                    | Inr dysdx \<Rightarrow> (register_grads dysdx (fst Q), Inr dysdx))))"
    unfolding fwd_gradients_in_unfold P_def A3_def by (simp add: Let_def)
  have pure: "fwd_intermediate g ys xs a =
     (case r2 of Inl e \<Rightarrow> Inl e
      | Inr d2 \<Rightarrow>
         (case set_shapes (zip xs (fill_nones ?n xs d2)) of
            Inl e \<Rightarrow> Inl e
          | Inr dydxs \<Rightarrow> Inr (?us, dydxs)))"
    unfolding r2_def by (rule fwd_intermediate_unfold)
  show ?thesis
  proof (cases r2)
    case (Inl e)
    with unf sP pure P show ?thesis by (simp add: fwd_gradients_def)
  next
    case (Inr d2)
    let ?d3 = "fill_nones ?n xs d2"
    define A5 where "A5 = register_grads ?d3 (fst P)"
    define Q where "Q = set_shapes_in (zip xs ?d3) A5"
    have A5: "extends A A5 \<and> static_shape A5 = static_shape A"
      unfolding A5_def using register_grads_extends[of "fst P" ?d3] P
      by (auto intro: extends_trans)
    have new: "\<forall>z\<in>set (zip xs ?d3). \<forall>t. snd z = Some (Dense t) \<longrightarrow> is_new g t"
      by (rule fill_nones_is_new) (use Inr in \<open>simp add: r2_def\<close>)
    from set_shapes_in_frame[OF new, of A5]
    have fr: "nodes (fst Q) = nodes A5" "assertions (fst Q) = assertions A5"
      "\<forall>t. registered g t \<longrightarrow> static_shape (fst Q) t = static_shape A5 t"
      by (simp_all add: Q_def)
    have "extends A5 (fst Q)"
      by (rule extendsI[of _ _ "[]" "[]"]) (use fr in simp_all)
    with A5 have eQ: "extends A (fst Q)" by (auto intro: extends_trans)
    from fr A5 have sQ: "\<forall>t. registered g t \<longrightarrow> static_shape (fst Q) t = static_shape A t"
      by simp
    have rQ: "snd Q = set_shapes (zip xs ?d3)"
      by (simp add: Q_def set_shapes_in_result)
    have unf2: "fwd_gradients_in A g ys xs grad_xs a =
       (case snd Q of Inl e \<Rightarrow> (fst Q, Inl e)
        | Inr dydxs \<Rightarrow>
           (case gradients dydxs ?us grad_xs of Inl e \<Rightarrow> (fst Q, Inl e)
            | Inr dysdx \<Rightarrow> (register_grads dysdx (fst Q), Inr dysdx)))"
      by (simp only: unf sP Inr sum.case Let_def Q_def A5_def)
    show ?thesis
    proof (cases "set_shapes (zip xs ?d3)")
      case (Inl e)
      with unf2 rQ pure Inr eQ sQ show ?thesis by (simp add: fwd_gradients_def)
    next
      case dy: (Inr dydxs)
      with pure Inr have fi: "fwd_intermediate g ys xs a = Inr (?us, dydxs)" by simp
      show ?thesis
      proof (cases "gradients dydxs ?us grad_xs")
        case (Inl e)
        with unf2 rQ dy fi eQ sQ show ?thesis by (simp add: fwd_gradients_def)
      next
        case res: (Inr dysdx)
        from register_grads_extends[of "fst Q" dysdx] eQ sQ
        have "extends A (register_grads dysdx (fst Q))"
          "\<forall>t. registered g t \<longrightarrow> static_shape (register_grads dysdx (fst Q)) t = static_shape A t"
          by (auto intro: extends_trans)
        with unf2 rQ dy fi res show ?thesis by (simp add: fwd_gradients_def)
      qed
    qed
  qed
qed

text \<open>
  Claim C8. Run with the ambient graph as a store, the call gives the results of
  \<open>fwd_gradients\<close> and, whether it returns or fails, only adds to the graph: the nodes and
  assertions registered before are still there, in their order, and what is new comes after
  them. The one update in place, \<open>set_shape\<close> (line 72), changes the shape recorded for
  nodes that this call has created only: every node built from names handed out before
  the call, so every tensor of \<open>ys\<close>, \<open>xs\<close> and \<open>grad_xs\<close>, has the shape record it had. The
  three sequences themselves are only read.
\<close>

theorem call_leaves_caller_nodes_alone:
  "snd (fwd_gradients_in A g ys xs grad_xs a) = map_sum id fst (fwd_gradients g ys xs grad_xs a)
   \<and> extends A (fst (fwd_gradients_in A g ys xs grad_xs a))
   \<and> (\<forall>t. registered g t \<longrightarrow>
          static_shape (fst (fwd_gradients_in A g ys xs grad_xs a)) t = static_shape A t)
   \<and> (list_all (registered g) (ys @ xs @ (case grad_xs of None \<Rightarrow> [] | Some gs \<Rightarrow> gs))
        \<longrightarrow> list_all
             (\<lambda>t. static_shape (fst (fwd_gradients_in A g ys xs grad_xs a)) t = static_shape A t)
             (ys @ xs @ (case grad_xs of None \<Rightarrow> [] | Some gs \<Rightarrow> gs)))"
proof -
  note f = fwd_gradients_in_frame[of A g ys xs grad_xs a]
  from f have "list_all (registered g) (ys @ xs @ (case grad_xs of None \<Rightarrow> [] | Some gs \<Rightarrow> gs))
        \<longrightarrow> list_all
             (\<lambda>t. static_shape (fst (fwd_gradients_in A g ys xs grad_xs a)) t = static_shape A t)
             (ys @ xs @ (case grad_xs of None \<Rightarrow> [] | Some gs \<Rightarrow> gs))"
    unfolding list_all_iff by blast
  with f show ?thesis by blast
qed

theorem call_leaves_caller_nodes_alone_witness:
  "registered \<lparr>op_count = 2\<rparr> (Placeholder 0 [])
   \<and> static_shape
        (fst (fwd_gradients_in
           \<lparr>nodes = [Placeholder 0 [], Placeholder 1 [], Mul (Placeholder 0 []) (Placeholder 1 [])],
            assertions = [], static_shape = Map.empty\<rparr>
           \<lparr>op_count = 2\<rparr> [Mul (Placeholder 0 []) (Placeholder 1 [])]
           [Placeholder 0 [], Placeholder 1 []] None False))
        (Placeholder 0 [])
      = None
   \<and> static_shape
        (fst (fwd_gradients_in
           \<lparr>nodes = [Placeholder 0 [], Placeholder 1 [], Mul (Placeholder 0 []) (Placeholder 1 [])],
            assertions = [], static_shape = Map.empty\<rparr>
           \<lparr>op_count = 2\<rparr> [Mul (Placeholder 0 []) (Placeholder 1 [])]
           [Placeholder 0 [], Placeholder 1 []] None False))
        (Mul (AddScalar (ZerosLike 2 (Mul (Placeholder 0 []) (Placeholder 1 []))) NaN)
             (Placeholder 1 []))
      = Some []
   \<and> extends
        \<lparr>nodes = [Placeholder 0 [], Placeholder 1 [], Mul (Placeholder 0 []) (Placeholder 1 [])],
         assertions = [], static_shape = Map.empty\<rparr>
        (fst (fwd_gradients_in
           \<lparr>nodes = [Placeholder 0 [], Placeholder 1 [], Mul (Placeholder 0 []) (Placeholder 1 [])],
            assertions = [], static_shape = Map.empty\<rparr>
           \<lparr>op_count = 2\<rparr> [Mul (Placeholder 0 []) (Placeholder 1 [])]
           [Placeholder 0 [], Placeholder 1 []] None False))"
proof -
  let ?A = "\<lparr>nodes = [Placeholder 0 [], Placeholder 1 [],
                Mul (Placeholder 0 []) (Placeholder 1 [])],
            assertions = [], static_shape = Map.empty\<rparr>"
  let ?g = "\<lparr>op_count = 2\<rparr>"
  let ?ys = "[Mul (Placeholder 0 []) (Placeholder 1 [])]"
  let ?xs = "[Placeholder 0 [], Placeholder 1 []]"
  have reg: "registered ?g (Placeholder 0 [])" by (simp add: registered_def)
  note t = call_leaves_caller_nodes_alone[of ?A ?g ?ys ?xs None False]
  from t reg have "static_shape (fst (fwd_gradients_in ?A ?g ?ys ?xs None False))
      (Placeholder 0 []) = static_shape ?A (Placeholder 0 [])"
    by blast
  then have 1: "static_shape (fst (fwd_gradients_in ?A ?g ?ys ?xs None False))
      (Placeholder 0 []) = None"
    by simp
  from t have 2: "extends ?A (fst (fwd_gradients_in ?A ?g ?ys ?xs None False))" by blast
  have 3: "static_shape (fst (fwd_gradients_in ?A ?g ?ys ?xs None False))
        (Mul (AddScalar (ZerosLike 2 (Mul (Placeholder 0 []) (Placeholder 1 []))) NaN)
             (Placeholder 1 [])) = Some []"
    by code_simp
  from reg 1 2 3 show ?thesis by blast
qed

subsection \<open>Overflow in single precision\<close>

text \<open>The single-precision number nearest to \<open>3e38\<close>, and its double, which is beyond the
  largest finite number.\<close>

lemma round_f32_3e38:
  "round_f32 300000000000000000000000000000000000000
     = F32 300000000549775575777803994281145270272"
  by (simp add: round_f32_big[where n = 127] round_half_even_def)

lemma single_precision_overflow:
  "fmul32 (F32 2) (F32 300000000549775575777803994281145270272) = F32_Inf False"
  by (simp add: round_f32_big[where n = 128] round_half_even_def)

end
